theory Spec2Isabelle
  imports Main "HOL-Library.Char_ord"
begin

section \<open>Go standard library: \<open>strings.Trim\<close> with a one-byte cutset\<close>

text \<open>
  Go strings are byte sequences; \<^typ>\<open>string\<close> is a list of bytes as well.
  For a cutset of one ASCII byte, \<open>strings.Trim(s, cutset)\<close> is
  \<open>trimLeftByte(trimRightByte(s, c), c)\<close>; both helpers drop bytes equal to \<open>c\<close>
  from their end of the string while there are any.
\<close>

definition trimLeftByte :: "string \<Rightarrow> char \<Rightarrow> string" where
  "trimLeftByte s c = dropWhile (\<lambda>x. x = c) s"

definition trimRightByte :: "string \<Rightarrow> char \<Rightarrow> string" where
  "trimRightByte s c = rev (dropWhile (\<lambda>x. x = c) (rev s))"

definition strings_Trim :: "string \<Rightarrow> char \<Rightarrow> string" where
  "strings_Trim s c = trimLeftByte (trimRightByte s c) c"

section \<open>Go standard library: \<open>path.Clean\<close> and \<open>path.Join\<close>\<close>

text \<open>
  \<open>path.Clean\<close> writes into a \<open>lazybuf\<close>, whose content is the first \<open>w\<close> bytes
  written so far; the model keeps that content as the string \<open>out\<close>, so that
  \<open>out.w\<close> is \<open>length out\<close> and \<open>out.append(c)\<close> is \<open>out @ [c]\<close>.  The read index
  \<open>r\<close> is kept as the unread rest \<open>path[r:]\<close>.

  \<open>backtrack\<close> is the inner loop of the \<open>..\<close> case, entered after \<open>out.w--\<close>:
  \<open>for out.w > dotdot && out.index(out.w) != '/' { out.w-- }\<close>.

  In \<open>clean_loop\<close> the test \<open>path[r+1] == '.'\<close> of the third case is \<open>hd rest = CHR ''.''\<close>;
  it is read only when \<open>path[r] == '.'\<close> and the second case has failed, that is when
  \<open>rest\<close> is not empty, as in the source.
\<close>

function backtrack :: "string \<Rightarrow> nat \<Rightarrow> nat \<Rightarrow> nat" where
  "backtrack out w dotdot =
     (if w > dotdot \<and> out ! w \<noteq> CHR ''/'' then backtrack out (w - 1) dotdot else w)"
  by pat_completeness auto
termination
  by (relation "measure (\<lambda>(out, w, dotdot). w)") auto

declare backtrack.simps [simp del]

function clean_loop :: "bool \<Rightarrow> string \<Rightarrow> string \<Rightarrow> nat \<Rightarrow> string" where
  "clean_loop rooted [] out dotdot = out"
| "clean_loop rooted (c # rest) out dotdot =
     (if c = CHR ''/'' then
        \<comment> \<open>empty path element\<close>
        clean_loop rooted rest out dotdot
      else if c = CHR ''.'' \<and> (rest = [] \<or> hd rest = CHR ''/'') then
        \<comment> \<open>. element\<close>
        clean_loop rooted rest out dotdot
      else if c = CHR ''.'' \<and> hd rest = CHR ''.'' \<and> (tl rest = [] \<or> hd (tl rest) = CHR ''/'') then
        \<comment> \<open>.. element: remove to last /\<close>
        (if length out > dotdot then
           clean_loop rooted (tl rest) (take (backtrack out (length out - 1) dotdot) out) dotdot
         else if \<not> rooted then
           clean_loop rooted (tl rest)
             ((if length out > 0 then out @ ''/'' else out) @ ''..'')
             (length ((if length out > 0 then out @ ''/'' else out) @ ''..''))
         else clean_loop rooted (tl rest) out dotdot)
      else
        \<comment> \<open>real path element: add slash if needed, copy element\<close>
        clean_loop rooted (dropWhile (\<lambda>x. x \<noteq> CHR ''/'') (c # rest))
          ((if rooted \<and> length out \<noteq> 1 \<or> \<not> rooted \<and> length out \<noteq> 0 then out @ ''/'' else out)
             @ takeWhile (\<lambda>x. x \<noteq> CHR ''/'') (c # rest))
          dotdot)"
    apply pat_completeness
    apply simp
   apply simp
  apply (simp only: prod.inject list.inject)
  done
termination
proof (relation "measure (\<lambda>(rooted, rest, out, dotdot). length rest)")
  show "wf (measure (\<lambda>(rooted, rest, out, dotdot). length rest))"
    by simp
qed (simp_all add: less_Suc_eq_le length_dropWhile_le)

declare clean_loop.simps [simp del]

definition Clean :: "string \<Rightarrow> string" where
  "Clean path =
     (if path = [] then ''.''
      else
        let rooted = (hd path = CHR ''/'');
            out = (if rooted then clean_loop rooted (tl path) ''/'' 1
                   else clean_loop rooted path [] 0)
        in if length out = 0 then ''.'' else out)"

text \<open>
  \<open>path.Join(elem...)\<close>: the empty string when all elements are empty; otherwise the
  elements from the first non-empty one on, separated by slashes, cleaned.
\<close>

fun join_buf :: "string list \<Rightarrow> string \<Rightarrow> string" where
  "join_buf [] buf = buf"
| "join_buf (e # es) buf =
     (if length buf > 0 \<or> e \<noteq> [] then
        join_buf es ((if length buf > 0 then buf @ ''/'' else buf) @ e)
      else join_buf es buf)"

definition path_Join :: "string list \<Rightarrow> string" where
  "path_Join elem =
     (if sum_list (map length elem) = 0 then []
      else Clean (join_buf elem []))"

section \<open>Go standard library: substring helpers of package \<open>strings\<close>\<close>

text \<open>
  \<open>strings.Index\<close> and \<open>strings.LastIndex\<close> return \<open>-1\<close> when the substring does not
  occur; the model returns \<open>None\<close> there.
\<close>

fun strings_Index :: "string \<Rightarrow> string \<Rightarrow> nat option" where
  "strings_Index [] substr = (if substr = [] then Some 0 else None)"
| "strings_Index (c # cs) substr =
     (if take (length substr) (c # cs) = substr then Some 0
      else map_option Suc (strings_Index cs substr))"

fun strings_LastIndex :: "string \<Rightarrow> string \<Rightarrow> nat option" where
  "strings_LastIndex [] substr = (if substr = [] then Some 0 else None)"
| "strings_LastIndex (c # cs) substr =
     (case strings_LastIndex cs substr of
        Some i \<Rightarrow> Some (Suc i)
      | None \<Rightarrow> if take (length substr) (c # cs) = substr then Some 0 else None)"

definition strings_Contains :: "string \<Rightarrow> string \<Rightarrow> bool" where
  "strings_Contains s substr = (strings_Index s substr \<noteq> None)"

definition strings_Cut :: "string \<Rightarrow> string \<Rightarrow> string \<times> string \<times> bool" where
  "strings_Cut s sep =
     (case strings_Index s sep of
        Some i \<Rightarrow> (take i s, drop (i + length sep) s, True)
      | None \<Rightarrow> (s, [], False))"

definition strings_HasPrefix :: "string \<Rightarrow> string \<Rightarrow> bool" where
  "strings_HasPrefix s pre = (length s \<ge> length pre \<and> take (length pre) s = pre)"

definition strings_HasSuffix :: "string \<Rightarrow> string \<Rightarrow> bool" where
  "strings_HasSuffix s suf =
     (length s \<ge> length suf \<and> drop (length s - length suf) s = suf)"

text \<open>\<open>strings.Count\<close> for a separator of one byte.\<close>

definition strings_CountByte :: "string \<Rightarrow> char \<Rightarrow> nat" where
  "strings_CountByte s c = length (filter (\<lambda>x. x = c) s)"

text \<open>The byte range test \<open>lo <= c && c <= hi\<close>.\<close>

definition inRange :: "char \<Rightarrow> char \<Rightarrow> char \<Rightarrow> bool" where
  "inRange lo hi c = (lo \<le> c \<and> c \<le> hi)"

text \<open>
  \<open>strings.ToLower\<close> on a string of ASCII bytes (the only use below is on a scheme,
  which \<open>getScheme\<close> restricts to ASCII letters, digits, \<open>+\<close>, \<open>-\<close> and \<open>.\<close>).
\<close>

definition strings_ToLower :: "string \<Rightarrow> string" where
  "strings_ToLower s =
     map (\<lambda>c. if inRange CHR ''A'' CHR ''Z'' c
              then char_of (of_char c + (of_char CHR ''a'' - of_char CHR ''A'' :: nat)) else c) s"

section \<open>Go standard library: \<open>net/url\<close>\<close>

text \<open>
  The parts of package \<open>net/url\<close> that \<open>url.Parse\<close> and \<open>URL.String\<close> run through, after
  the library's source as of Go 1.20 (\<open>strings.Cut\<close> splits off fragment and query,
  the field \<open>OmitHost\<close> records a scheme followed by a rooted path without authority).
\<close>

datatype encoding =
  encodePath | encodePathSegment | encodeHost | encodeZone
  | encodeUserPassword | encodeQueryComponent | encodeFragment

text \<open>
  The errors of \<open>net/url\<close>: \<open>EscapeError\<close> and \<open>InvalidHostError\<close> carry the offending
  text, \<open>ErrorString\<close> is an \<open>errors.New\<close> message, \<open>InvalidPortError\<close> stands for
  \<open>fmt.Errorf("invalid port %q after host", colonPort)\<close>.
\<close>

datatype url_err =
  EscapeError string | InvalidHostError string | ErrorString string | InvalidPortError string

definition ishex :: "char \<Rightarrow> bool" where
  "ishex c =
     (inRange CHR ''0'' CHR ''9'' c \<or> inRange CHR ''a'' CHR ''f'' c
      \<or> inRange CHR ''A'' CHR ''F'' c)"

definition unhex :: "char \<Rightarrow> nat" where
  "unhex c =
     (if inRange CHR ''0'' CHR ''9'' c then of_char c - of_char CHR ''0''
      else if inRange CHR ''a'' CHR ''f'' c then of_char c - of_char CHR ''a'' + 10
      else if inRange CHR ''A'' CHR ''F'' c then of_char c - of_char CHR ''A'' + 10
      else 0)"

definition upperhex :: string where
  "upperhex = ''0123456789ABCDEF''"

definition shouldEscape :: "char \<Rightarrow> encoding \<Rightarrow> bool" where
  "shouldEscape c mode =
     (if inRange CHR ''a'' CHR ''z'' c \<or> inRange CHR ''A'' CHR ''Z'' c
         \<or> inRange CHR ''0'' CHR ''9'' c then False
      else if (mode = encodeHost \<or> mode = encodeZone)
           \<and> (c \<in> set ''!$&()*+,;=:[]<>'' \<or> c = CHR 0x27 \<or> c = CHR 0x22) then False
      else if c \<in> set ''-_.~'' then False
      else if c \<in> set ''$&+,/:;=?@'' \<and> mode = encodePath then c = CHR ''?''
      else if c \<in> set ''$&+,/:;=?@'' \<and> mode = encodePathSegment then
        c = CHR ''/'' \<or> c = CHR '';'' \<or> c = CHR '','' \<or> c = CHR ''?''
      else if c \<in> set ''$&+,/:;=?@'' \<and> mode = encodeUserPassword then
        c = CHR ''@'' \<or> c = CHR ''/'' \<or> c = CHR ''?'' \<or> c = CHR '':''
      else if c \<in> set ''$&+,/:;=?@'' \<and> mode = encodeQueryComponent then True
      else if c \<in> set ''$&+,/:;=?@'' \<and> mode = encodeFragment then False
      else if mode = encodeFragment \<and> c \<in> set ''!()*'' then False
      else True)"

text \<open>
  \<open>unescape\<close> makes two passes.  The first counts the \<open>%\<close> signs and checks that each
  is followed by two hex digits (and, in a host, that nothing is escaped or written
  that a host cannot hold); the second builds the result.  The index \<open>i\<close> is kept as
  the unread rest \<open>s[i:]\<close>.
\<close>

function unescape_check :: "encoding \<Rightarrow> string \<Rightarrow> nat \<Rightarrow> bool \<Rightarrow> url_err + (nat \<times> bool)" where
  "unescape_check mode [] n hasPlus = Inr (n, hasPlus)"
| "unescape_check mode (c # cs) n hasPlus =
     (if c = CHR ''%'' then
        (if length cs < 2 \<or> \<not> ishex (hd cs) \<or> \<not> ishex (hd (tl cs)) then
           Inl (EscapeError (take 3 (c # cs)))
         else if mode = encodeHost \<and> unhex (hd cs) < 8 \<and> take 3 (c # cs) \<noteq> ''%25'' then
           Inl (EscapeError (take 3 (c # cs)))
         else if mode = encodeZone
                 \<and> take 3 (c # cs) \<noteq> ''%25''
                 \<and> char_of (unhex (hd cs) * 16 + unhex (hd (tl cs))) \<noteq> CHR '' ''
                 \<and> shouldEscape (char_of (unhex (hd cs) * 16 + unhex (hd (tl cs)))) encodeHost then
           Inl (EscapeError (take 3 (c # cs)))
         else unescape_check mode (drop 2 cs) (n + 1) hasPlus)
      else if c = CHR ''+'' then
        unescape_check mode cs n (mode = encodeQueryComponent)
      else if (mode = encodeHost \<or> mode = encodeZone) \<and> (of_char c :: nat) < 0x80
              \<and> shouldEscape c encodeHost then
        Inl (InvalidHostError [c])
      else unescape_check mode cs n hasPlus)"
     apply pat_completeness
    apply simp
   apply simp
  apply (simp only: prod.inject list.inject)
  done
termination
  by (relation "measure (\<lambda>(mode, s, n, hasPlus). length s)") simp_all

declare unescape_check.simps [simp del]

function unescape_build :: "encoding \<Rightarrow> string \<Rightarrow> string" where
  "unescape_build mode [] = []"
| "unescape_build mode (c # cs) =
     (if c = CHR ''%'' then
        char_of (unhex (hd cs) * 16 + unhex (hd (tl cs))) # unescape_build mode (drop 2 cs)
      else if c = CHR ''+'' then
        (if mode = encodeQueryComponent then CHR '' '' else CHR ''+'') # unescape_build mode cs
      else c # unescape_build mode cs)"
     apply pat_completeness
    apply simp
   apply simp
  apply (simp only: prod.inject list.inject)
  done
termination
  by (relation "measure (\<lambda>(mode, s). length s)") simp_all

declare unescape_build.simps [simp del]

definition unescape :: "string \<Rightarrow> encoding \<Rightarrow> url_err + string" where
  "unescape s mode =
     (case unescape_check mode s 0 False of
        Inl err \<Rightarrow> Inl err
      | Inr (n, hasPlus) \<Rightarrow>
          if n = 0 \<and> \<not> hasPlus then Inr s else Inr (unescape_build mode s))"

text \<open>
  \<open>escape\<close> counts the bytes to change first and returns the string itself when there
  are none; \<open>c>>4\<close> and \<open>c&15\<close> are the two hex digits of the byte.
\<close>

definition escape :: "string \<Rightarrow> encoding \<Rightarrow> string" where
  "escape s mode =
     (let spaceCount = length (filter (\<lambda>c. shouldEscape c mode
                          \<and> (c = CHR '' '' \<and> mode = encodeQueryComponent)) s);
          hexCount = length (filter (\<lambda>c. shouldEscape c mode
                          \<and> \<not> (c = CHR '' '' \<and> mode = encodeQueryComponent)) s)
      in if spaceCount = 0 \<and> hexCount = 0 then s
         else if hexCount = 0 then map (\<lambda>c. if c = CHR '' '' then CHR ''+'' else c) s
         else concat (map (\<lambda>c.
                if c = CHR '' '' \<and> mode = encodeQueryComponent then ''+''
                else if shouldEscape c mode then
                  [CHR ''%'', upperhex ! ((of_char c :: nat) div 16), upperhex ! ((of_char c :: nat) mod 16)]
                else [c]) s))"

definition validEncoded :: "string \<Rightarrow> encoding \<Rightarrow> bool" where
  "validEncoded s mode =
     list_all (\<lambda>c.
        if c \<in> set ''!$&()*+,;=:@'' \<or> c = CHR 0x27 then True
        else if c = CHR ''['' \<or> c = CHR '']'' then True
        else if c = CHR ''%'' then True
        else \<not> shouldEscape c mode) s"

definition stringContainsCTLByte :: "string \<Rightarrow> bool" where
  "stringContainsCTLByte s = list_ex (\<lambda>b. b < CHR '' '' \<or> b = CHR 0x7F) s"

text \<open>
  \<open>getScheme\<close>: the scan of \<open>rawURL\<close> by index \<open>i\<close>, with \<open>rest = rawURL[i:]\<close>.
\<close>

fun getScheme_loop :: "string \<Rightarrow> nat \<Rightarrow> string \<Rightarrow> url_err + (string \<times> string)" where
  "getScheme_loop rawURL i [] = Inr ([], rawURL)"
| "getScheme_loop rawURL i (c # rest) =
     (if inRange CHR ''a'' CHR ''z'' c \<or> inRange CHR ''A'' CHR ''Z'' c then
        getScheme_loop rawURL (i + 1) rest
      else if inRange CHR ''0'' CHR ''9'' c \<or> c = CHR ''+'' \<or> c = CHR ''-'' \<or> c = CHR ''.'' then
        (if i = 0 then Inr ([], rawURL) else getScheme_loop rawURL (i + 1) rest)
      else if c = CHR '':'' then
        (if i = 0 then Inl (ErrorString ''missing protocol scheme'')
         else Inr (take i rawURL, rest))
      else Inr ([], rawURL))"

definition getScheme :: "string \<Rightarrow> url_err + (string \<times> string)" where
  "getScheme rawURL = getScheme_loop rawURL 0 rawURL"

definition validOptionalPort :: "string \<Rightarrow> bool" where
  "validOptionalPort port =
     (if port = [] then True
      else if hd port \<noteq> CHR '':'' then False
      else list_all (\<lambda>b. \<not> (b < CHR ''0'' \<or> b > CHR ''9'')) (tl port))"

definition validUserinfo :: "string \<Rightarrow> bool" where
  "validUserinfo s =
     list_all (\<lambda>r.
        inRange CHR ''A'' CHR ''Z'' r \<or> inRange CHR ''a'' CHR ''z'' r
        \<or> inRange CHR ''0'' CHR ''9'' r
        \<or> r \<in> set ''-._:~!$&()*+,;=%@'' \<or> r = CHR 0x27) s"

record Userinfo =
  username :: string
  password :: string
  passwordSet :: bool

record URL =
  Scheme :: string
  Opaque :: string
  User :: "Userinfo option"
  Host :: string
  Path :: string
  RawPath :: string
  OmitHost :: bool
  ForceQuery :: bool
  RawQuery :: string
  Fragment :: string
  RawFragment :: string

text \<open>The zero value that \<open>new(URL)\<close> allocates.\<close>

definition new_URL :: URL where
  "new_URL = \<lparr>Scheme = [], Opaque = [], User = None, Host = [], Path = [], RawPath = [],
     OmitHost = False, ForceQuery = False, RawQuery = [], Fragment = [], RawFragment = []\<rparr>"

definition parseHost :: "string \<Rightarrow> url_err + string" where
  "parseHost host =
     (if strings_HasPrefix host ''['' then
        (case strings_LastIndex host '']'' of
           None \<Rightarrow> Inl (ErrorString ''missing ']' in host'')
         | Some i \<Rightarrow>
             let colonPort = drop (i + 1) host in
             if \<not> validOptionalPort colonPort then Inl (InvalidPortError colonPort)
             else
               (case strings_Index (take i host) ''%25'' of
                  Some zone \<Rightarrow>
                    (case unescape (take zone host) encodeHost of
                       Inl err \<Rightarrow> Inl err
                     | Inr host1 \<Rightarrow>
                         (case unescape (drop zone (take i host)) encodeZone of
                            Inl err \<Rightarrow> Inl err
                          | Inr host2 \<Rightarrow>
                              (case unescape (drop i host) encodeHost of
                                 Inl err \<Rightarrow> Inl err
                               | Inr host3 \<Rightarrow> Inr (host1 @ host2 @ host3))))
                | None \<Rightarrow> unescape host encodeHost))
      else
        (case strings_LastIndex host '':'' of
           Some i \<Rightarrow>
             let colonPort = drop i host in
             if \<not> validOptionalPort colonPort then Inl (InvalidPortError colonPort)
             else unescape host encodeHost
         | None \<Rightarrow> unescape host encodeHost))"

definition parseAuthority :: "string \<Rightarrow> url_err + (Userinfo option \<times> string)" where
  "parseAuthority authority =
     (let i = strings_LastIndex authority ''@'' in
      case (case i of None \<Rightarrow> parseHost authority
                    | Some j \<Rightarrow> parseHost (drop (j + 1) authority)) of
        Inl err \<Rightarrow> Inl err
      | Inr host \<Rightarrow>
          (case i of
             None \<Rightarrow> Inr (None, host)
           | Some j \<Rightarrow>
               let userinfo = take j authority in
               if \<not> validUserinfo userinfo then Inl (ErrorString ''net/url: invalid userinfo'')
               else if \<not> strings_Contains userinfo '':'' then
                 (case unescape userinfo encodeUserPassword of
                    Inl err \<Rightarrow> Inl err
                  | Inr name \<Rightarrow>
                      Inr (Some \<lparr>username = name, password = [], passwordSet = False\<rparr>, host))
               else
                 (case strings_Cut userinfo '':'' of (username0, password0, _) \<Rightarrow>
                    (case unescape username0 encodeUserPassword of
                       Inl err \<Rightarrow> Inl err
                     | Inr name \<Rightarrow>
                         (case unescape password0 encodeUserPassword of
                            Inl err \<Rightarrow> Inl err
                          | Inr pw \<Rightarrow>
                              Inr (Some \<lparr>username = name, password = pw, passwordSet = True\<rparr>,
                                   host))))))"

definition setPath :: "URL \<Rightarrow> string \<Rightarrow> url_err + URL" where
  "setPath u p =
     (case unescape p encodePath of
        Inl err \<Rightarrow> Inl err
      | Inr path \<Rightarrow>
          Inr (u\<lparr>Path := path,
                 RawPath := (if p = escape path encodePath then [] else p)\<rparr>))"

definition setFragment :: "URL \<Rightarrow> string \<Rightarrow> url_err + URL" where
  "setFragment u f =
     (case unescape f encodeFragment of
        Inl err \<Rightarrow> Inl err
      | Inr frag \<Rightarrow>
          Inr (u\<lparr>Fragment := frag,
                 RawFragment := (if f = escape frag encodeFragment then [] else f)\<rparr>))"

definition parse :: "string \<Rightarrow> bool \<Rightarrow> url_err + URL" where
  "parse rawURL viaRequest =
     (if stringContainsCTLByte rawURL then
        Inl (ErrorString ''net/url: invalid control character in URL'')
      else if rawURL = [] \<and> viaRequest then Inl (ErrorString ''empty url'')
      else if rawURL = ''*'' then Inr (new_URL\<lparr>Path := ''*''\<rparr>)
      else
        case getScheme rawURL of
          Inl err \<Rightarrow> Inl err
        | Inr (scheme0, rest0) \<Rightarrow>
            let url1 = new_URL\<lparr>Scheme := strings_ToLower scheme0\<rparr>;
                forceQuery = (strings_HasSuffix rest0 ''?'' \<and> strings_CountByte rest0 CHR ''?'' = 1);
                rest1 = (if forceQuery then take (length rest0 - 1) rest0
                         else fst (strings_Cut rest0 ''?''));
                url2 = (if forceQuery then url1\<lparr>ForceQuery := True\<rparr>
                        else url1\<lparr>RawQuery := fst (snd (strings_Cut rest0 ''?''))\<rparr>)
            in
              if \<not> strings_HasPrefix rest1 ''/'' \<and> Scheme url2 \<noteq> [] then
                Inr (url2\<lparr>Opaque := rest1\<rparr>)
              else if \<not> strings_HasPrefix rest1 ''/'' \<and> viaRequest then
                Inl (ErrorString ''invalid URI for request'')
              else if \<not> strings_HasPrefix rest1 ''/''
                      \<and> strings_Contains (fst (strings_Cut rest1 ''/'')) '':'' then
                Inl (ErrorString ''first path segment in URL cannot contain colon'')
              else if (Scheme url2 \<noteq> [] \<or> \<not> viaRequest \<and> \<not> strings_HasPrefix rest1 ''///'')
                      \<and> strings_HasPrefix rest1 ''//'' then
                (let authority0 = drop 2 rest1;
                     authority = (case strings_Index authority0 ''/'' of
                                    Some i \<Rightarrow> take i authority0 | None \<Rightarrow> authority0);
                     rest2 = (case strings_Index authority0 ''/'' of
                                Some i \<Rightarrow> drop i authority0 | None \<Rightarrow> [])
                 in case parseAuthority authority of
                      Inl err \<Rightarrow> Inl err
                    | Inr (user, host) \<Rightarrow> setPath (url2\<lparr>User := user, Host := host\<rparr>) rest2)
              else if Scheme url2 \<noteq> [] \<and> strings_HasPrefix rest1 ''/'' then
                setPath (url2\<lparr>OmitHost := True\<rparr>) rest1
              else setPath url2 rest1)"

text \<open>
  An error of \<open>url.Parse\<close> is a \<open>*url.Error\<close> with the operation, the text parsed and
  the cause; \<open>ParseError\<close> is the error type of \<open>gmu/s3/s3.go\<close>, which carries the
  URI it was given.
\<close>

datatype error = ParseError string | url_Error string string url_err

definition url_Parse :: "string \<Rightarrow> error + URL" where
  "url_Parse rawURL =
     (case strings_Cut rawURL ''#'' of (u, frag, _) \<Rightarrow>
        (case parse u False of
           Inl err \<Rightarrow> Inl (url_Error ''parse'' u err)
         | Inr url \<Rightarrow>
             if frag = [] then Inr url
             else
               (case setFragment url frag of
                  Inl err \<Rightarrow> Inl (url_Error ''parse'' rawURL err)
                | Inr url' \<Rightarrow> Inr url')))"

definition EscapedPath :: "URL \<Rightarrow> string" where
  "EscapedPath u =
     (if RawPath u \<noteq> [] \<and> validEncoded (RawPath u) encodePath
         \<and> unescape (RawPath u) encodePath = Inr (Path u) then RawPath u
      else if Path u = ''*'' then ''*''
      else escape (Path u) encodePath)"

definition EscapedFragment :: "URL \<Rightarrow> string" where
  "EscapedFragment u =
     (if RawFragment u \<noteq> [] \<and> validEncoded (RawFragment u) encodeFragment
         \<and> unescape (RawFragment u) encodeFragment = Inr (Fragment u) then RawFragment u
      else escape (Fragment u) encodeFragment)"

definition Userinfo_String :: "Userinfo \<Rightarrow> string" where
  "Userinfo_String ui =
     (let s = escape (username ui) encodeUserPassword
      in if passwordSet ui then s @ '':'' @ escape (password ui) encodeUserPassword else s)"

text \<open>\<open>URL.String\<close>; each \<open>buf\<close> below is the builder's content after one statement.\<close>

definition URL_String :: "URL \<Rightarrow> string" where
  "URL_String u =
     (let buf0 = (if Scheme u \<noteq> [] then Scheme u @ '':'' else []);
          buf1 =
            (if Opaque u \<noteq> [] then buf0 @ Opaque u
             else
               let bufa =
                     (if Scheme u \<noteq> [] \<or> Host u \<noteq> [] \<or> User u \<noteq> None then
                        (if OmitHost u \<and> Host u = [] \<and> User u = None then buf0
                         else
                           let b1 = (if Host u \<noteq> [] \<or> Path u \<noteq> [] \<or> User u \<noteq> None
                                     then buf0 @ ''//'' else buf0);
                               b2 = (case User u of
                                       Some ui \<Rightarrow> b1 @ Userinfo_String ui @ ''@''
                                     | None \<Rightarrow> b1)
                           in if Host u \<noteq> [] then b2 @ escape (Host u) encodeHost else b2)
                      else buf0);
                   path = EscapedPath u;
                   bufb = (if path \<noteq> [] \<and> hd path \<noteq> CHR ''/'' \<and> Host u \<noteq> []
                           then bufa @ ''/'' else bufa);
                   bufc = (if length bufb = 0
                              \<and> strings_Contains (fst (strings_Cut path ''/'')) '':''
                           then bufb @ ''./'' else bufb)
               in bufc @ path);
          buf2 = (if ForceQuery u \<or> RawQuery u \<noteq> [] then buf1 @ ''?'' @ RawQuery u else buf1)
      in if Fragment u \<noteq> [] then buf2 @ ''#'' @ EscapedFragment u else buf2)"

section \<open>The \<open>Path\<close> type and its pure operations (\<open>gmu/s3/s3.go\<close>)\<close>

record Path =
  Bucket :: string
  Key :: string

definition Join :: "Path \<Rightarrow> string" where
  "Join p =
     (let cleanBucket = strings_Trim (Bucket p) CHR ''/'';
          cleanKey = strings_Trim (Key p) CHR ''/''
      in path_Join [cleanBucket, cleanKey])"

definition Append :: "Path \<Rightarrow> string \<Rightarrow> Path" where
  "Append p key = \<lparr>Bucket = Bucket p, Key = path_Join [Key p, key]\<rparr>"

text \<open>
  \<open>ToURI\<close> drops the error of \<open>url.Parse("s3://")\<close> and writes to the field of the
  pointer it got; were that pointer nil the assignment would panic, which is the
  result \<open>None\<close>.
\<close>

definition ToURI :: "Path \<Rightarrow> string option" where
  "ToURI p =
     (case url_Parse ''s3://'' of
        Inl err \<Rightarrow> None
      | Inr u \<Rightarrow> Some (URL_String (u\<lparr>Path := Join p\<rparr>)))"

text \<open>\<open>FromURI\<close> returns a pair: the path, and the error or nil.\<close>

definition FromURI :: "string \<Rightarrow> Path \<times> error option" where
  "FromURI uri =
     (case url_Parse uri of
        Inl err \<Rightarrow> (\<lparr>Bucket = [], Key = []\<rparr>, Some err)
      | Inr u \<Rightarrow>
          if Scheme u \<noteq> ''s3'' \<or> length (Host u) = 0 then
            (\<lparr>Bucket = [], Key = []\<rparr>, Some (ParseError uri))
          else
            let key = (if length (Path u) \<le> 1 then [] else drop 1 (Path u))
            in (\<lparr>Bucket = Host u, Key = key\<rparr>, None))"

section \<open>Auxiliary notions for statements and proofs\<close>

text \<open>
  The elements of a path are its maximal non-empty runs of bytes other than the
  separator; \<open>path.Clean\<close> visits exactly these, one per round of its loop.
\<close>

function elems :: "string \<Rightarrow> string list" where
  "elems [] = []"
| "elems (c # cs) =
     (if c = CHR ''/'' then elems cs
      else (c # takeWhile (\<lambda>x. x \<noteq> CHR ''/'') cs) # elems (dropWhile (\<lambda>x. x \<noteq> CHR ''/'') cs))"
  by pat_completeness auto
termination
  by (relation "measure length") (simp_all add: less_Suc_eq_le length_dropWhile_le)

declare elems.simps(2) [simp del]

text \<open>One round of the loop of \<open>path.Clean\<close>, as a function of the element it reads.\<close>

fun clean_step :: "bool \<Rightarrow> string \<times> nat \<Rightarrow> string \<Rightarrow> string \<times> nat" where
  "clean_step rooted (out, dotdot) t =
     (if t = ''.'' then (out, dotdot)
      else if t = ''..'' then
        (if length out > dotdot then
           (take (backtrack out (length out - 1) dotdot) out, dotdot)
         else if \<not> rooted then
           ((if length out > 0 then out @ ''/'' else out) @ ''..'',
            length ((if length out > 0 then out @ ''/'' else out) @ ''..''))
         else (out, dotdot))
      else
        ((if rooted \<and> length out \<noteq> 1 \<or> \<not> rooted \<and> length out \<noteq> 0 then out @ ''/'' else out) @ t,
         dotdot))"

declare clean_step.simps [simp del]

definition clean_elems :: "bool \<Rightarrow> string list \<Rightarrow> string" where
  "clean_elems rooted ts =
     (let out = fst (foldl (clean_step rooted) (if rooted then (''/'', 1) else ([], 0)) ts)
      in if out = [] then ''.'' else out)"

text \<open>The elements written back with one separator between neighbours.\<close>

fun join_slash :: "string list \<Rightarrow> string" where
  "join_slash [] = []"
| "join_slash [t] = t"
| "join_slash (t # u # ts) = t @ CHR ''/'' # join_slash (u # ts)"

text \<open>Two separators next to each other.\<close>

fun dslash :: "string \<Rightarrow> bool" where
  "dslash (a # b # cs) = (a = CHR ''/'' \<and> b = CHR ''/'' \<or> dslash (b # cs))"
| "dslash [a] = False"
| "dslash [] = False"

text \<open>
  A plain path has no empty element between two separators and no element \<open>.\<close> or
  \<open>..\<close>: there is nothing for \<open>path.Clean\<close> to remove or resolve in it.
\<close>

definition plain_path :: "string \<Rightarrow> bool" where
  "plain_path s =
     (\<not> strings_Contains s ''//'' \<and> list_all (\<lambda>t. t \<noteq> ''.'' \<and> t \<noteq> ''..'') (elems s))"

text \<open>
  The invariant of the loop of \<open>path.Clean\<close> on a path that is not rooted: the output
  neither starts nor ends with a separator, has no two separators in a row, and the
  byte before position \<open>dotdot\<close> is not a separator.
\<close>

definition clean_inv :: "string \<times> nat \<Rightarrow> bool" where
  "clean_inv st =
     (case st of (out, dd) \<Rightarrow>
        dd \<le> length out
        \<and> (out = [] \<or> hd out \<noteq> CHR ''/'' \<and> last out \<noteq> CHR ''/'')
        \<and> \<not> dslash out
        \<and> (dd = 0 \<or> out ! (dd - 1) \<noteq> CHR ''/''))"

text \<open>
  The bytes that may stand in a bucket for the round trip: \<open>URL.String\<close> writes them
  unescaped and \<open>url.Parse\<close> reads them back as part of a host name.
\<close>

definition bucket_byte :: "char \<Rightarrow> bool" where
  "bucket_byte c =
     (inRange CHR ''a'' CHR ''z'' c \<or> inRange CHR ''A'' CHR ''Z'' c \<or> inRange CHR ''0'' CHR ''9'' c
      \<or> c \<in> set ''-_.~$&+,;='')"

text \<open>What \<open>escape\<close> writes for one byte in mode \<open>encodePath\<close>.\<close>

definition pct :: "char \<Rightarrow> string" where
  "pct c = [CHR ''%'', upperhex ! ((of_char c :: nat) div 16), upperhex ! ((of_char c :: nat) mod 16)]"

definition escape_byte :: "char \<Rightarrow> string" where
  "escape_byte c = (if shouldEscape c encodePath then pct c else [c])"

section \<open>\<open>path.Clean\<close> as a fold over the elements\<close>

lemma elems_slash: "elems (CHR ''/'' # cs) = elems cs"
  by (simp add: elems.simps(2))

lemma elems_dot: "rest = [] \<or> hd rest = CHR ''/'' \<Longrightarrow> elems (CHR ''.'' # rest) = ''.'' # elems rest"
  by (cases rest) (auto simp: elems.simps(2))

lemma elems_dotdot:
  "r2 = [] \<or> hd r2 = CHR ''/'' \<Longrightarrow> elems (CHR ''.'' # CHR ''.'' # r2) = ''..'' # elems r2"
  by (cases r2) (auto simp: elems.simps(2))

lemma elems_word:
  "c \<noteq> CHR ''/'' \<Longrightarrow>
   elems (c # rest) = takeWhile (\<lambda>x. x \<noteq> CHR ''/'') (c # rest)
                      # elems (dropWhile (\<lambda>x. x \<noteq> CHR ''/'') (c # rest))"
  by (simp add: elems.simps(2))

lemma word_not_dot:
  assumes "c \<noteq> CHR ''/''" "\<not> (c = CHR ''.'' \<and> (rest = [] \<or> hd rest = CHR ''/''))"
  shows "takeWhile (\<lambda>x. x \<noteq> CHR ''/'') (c # rest) \<noteq> ''.''"
  using assms by (cases rest) (auto split: if_splits)

lemma word_not_dotdot:
  assumes "c \<noteq> CHR ''/''"
    and "\<not> (c = CHR ''.'' \<and> hd rest = CHR ''.'' \<and> (tl rest = [] \<or> hd (tl rest) = CHR ''/''))"
  shows "takeWhile (\<lambda>x. x \<noteq> CHR ''/'') (c # rest) \<noteq> ''..''"
proof
  assume a: "takeWhile (\<lambda>x. x \<noteq> CHR ''/'') (c # rest) = ''..''"
  then have c: "c = CHR ''.''" using assms(1) by simp
  from a assms(1) obtain r2 where r: "rest = CHR ''.'' # r2"
    by (cases rest) (auto split: if_splits)
  from a assms(1) r have "takeWhile (\<lambda>x. x \<noteq> CHR ''/'') r2 = []" by (simp split: if_splits)
  then have "r2 = [] \<or> hd r2 = CHR ''/''" by (cases r2) (auto split: if_splits)
  with c r assms(2) show False by simp
qed

lemma clean_loop_elems:
  "clean_loop rooted s out dotdot = fst (foldl (clean_step rooted) (out, dotdot) (elems s))"
proof (induction rooted s out dotdot rule: clean_loop.induct)
  case (1 rooted out dotdot)
  show ?case by (simp add: clean_loop.simps)
next
  case (2 rooted c rest out dotdot)
  show ?case
  proof (cases "c = CHR ''/''")
    case True
    with 2(1) show ?thesis by (simp add: clean_loop.simps(2) elems_slash)
  next
    case ns: False
    show ?thesis
    proof (cases "c = CHR ''.'' \<and> (rest = [] \<or> hd rest = CHR ''/'')")
      case True
      with ns 2(2) show ?thesis
        by (simp add: clean_loop.simps(2) elems_dot clean_step.simps)
    next
      case nd: False
      show ?thesis
      proof (cases "c = CHR ''.'' \<and> hd rest = CHR ''.'' \<and> (tl rest = [] \<or> hd (tl rest) = CHR ''/'')")
        case True
        with nd obtain r2 where r: "rest = CHR ''.'' # r2" and r2: "r2 = [] \<or> hd r2 = CHR ''/''"
          by (cases rest) auto
        have e: "elems (CHR ''.'' # CHR ''.'' # r2) = ''..'' # elems r2"
          using r2 by (rule elems_dotdot)
        have l: "clean_loop rooted (c # rest) out dotdot =
           (if length out > dotdot then
           clean_loop rooted (tl rest) (take (backtrack out (length out - 1) dotdot) out) dotdot
         else if \<not> rooted then
           clean_loop rooted (tl rest)
             ((if length out > 0 then out @ ''/'' else out) @ ''..'')
             (length ((if length out > 0 then out @ ''/'' else out) @ ''..''))
         else clean_loop rooted (tl rest) out dotdot)"
          by (subst clean_loop.simps(2))
            (simp only: if_not_P [OF ns] if_not_P [OF nd] if_P [OF True])
        show ?thesis
          using True ns nd 2(3-5) unfolding l
          by (simp add: r e clean_step.simps)
      next
        case ndd: False
        let ?t = "takeWhile (\<lambda>x. x \<noteq> CHR ''/'') (c # rest)"
        note e = elems_word [OF ns, of rest]
        note t1 = word_not_dot [OF ns nd]
        note t2 = word_not_dotdot [OF ns ndd]
        have l: "clean_loop rooted (c # rest) out dotdot =
            clean_loop rooted (dropWhile (\<lambda>x. x \<noteq> CHR ''/'') (c # rest))
          ((if rooted \<and> length out \<noteq> 1 \<or> \<not> rooted \<and> length out \<noteq> 0 then out @ ''/'' else out)
             @ takeWhile (\<lambda>x. x \<noteq> CHR ''/'') (c # rest))
          dotdot"
          by (subst clean_loop.simps(2))
            (simp only: if_not_P [OF ns] if_not_P [OF nd] if_not_P [OF ndd])
        show ?thesis
          unfolding l e 2(6) [OF ns nd ndd]
          using t1 t2 by (simp add: clean_step.simps del: takeWhile.simps dropWhile.simps)
      qed
    qed
  qed
qed

lemma takeWhile_stop: "\<not> P y \<Longrightarrow> takeWhile P (xs @ y # ys) = takeWhile P xs"
  by (induction xs) auto

lemma dropWhile_stop: "\<not> P y \<Longrightarrow> dropWhile P (xs @ y # ys) = dropWhile P xs @ y # ys"
  by (induction xs) auto

lemma elems_append_slash: "elems (a @ CHR ''/'' # b) = elems a @ elems b"
proof (induction a rule: elems.induct)
  case 1
  show ?case by (simp add: elems_slash)
next
  case (2 c cs)
  show ?case
  proof (cases "c = CHR ''/''")
    case True
    with 2(1) show ?thesis by (simp add: elems_slash)
  next
    case False
    with 2(2) show ?thesis
      by (simp add: elems.simps(2) [of c] takeWhile_stop dropWhile_stop)
  qed
qed

lemma elems_append_slashes: "elems (a @ replicate n CHR ''/'') = elems a"
proof (induction n)
  case 0
  show ?case by simp
next
  case (Suc n)
  have "elems (a @ replicate (Suc n) CHR ''/'') = elems ((a @ replicate n CHR ''/'') @ CHR ''/'' # [])"
    by (simp add: replicate_append_same)
  also have "\<dots> = elems (a @ replicate n CHR ''/'')"
    by (subst elems_append_slash) simp
  finally show ?case using Suc by simp
qed

lemma elems_trimLeftByte: "elems (trimLeftByte s CHR ''/'') = elems s"
  unfolding trimLeftByte_def by (induction s) (auto simp: elems_slash)

lemma trimRightByte_decomp:
  "\<exists>n. s = trimRightByte s c @ replicate n c"
proof -
  have "rev s = takeWhile (\<lambda>x. x = c) (rev s) @ dropWhile (\<lambda>x. x = c) (rev s)"
    by simp
  then have "s = rev (dropWhile (\<lambda>x. x = c) (rev s)) @ rev (takeWhile (\<lambda>x. x = c) (rev s))"
    by (metis rev_append rev_rev_ident)
  moreover have "takeWhile (\<lambda>x. x = c) (rev s) = replicate (length (takeWhile (\<lambda>x. x = c) (rev s))) c"
    by (rule replicate_length_same [symmetric]) (auto dest: set_takeWhileD)
  ultimately show ?thesis
    unfolding trimRightByte_def by (metis rev_replicate)
qed

lemma elems_trimRightByte: "elems (trimRightByte s CHR ''/'') = elems s"
proof -
  from trimRightByte_decomp obtain n where "s = trimRightByte s CHR ''/'' @ replicate n CHR ''/''"
    by blast
  then show ?thesis by (metis elems_append_slashes)
qed

lemma elems_strings_Trim: "elems (strings_Trim s CHR ''/'') = elems s"
  by (simp add: strings_Trim_def elems_trimLeftByte elems_trimRightByte)



lemma Clean_elems:
  "path \<noteq> [] \<Longrightarrow> Clean path = clean_elems (hd path = CHR ''/'') (elems path)"
  by (cases path) (auto simp: Clean_def clean_elems_def clean_loop_elems Let_def elems_slash)

lemma path_Join2:
  "path_Join [a, b] =
     (if a = [] \<and> b = [] then []
      else if a = [] then Clean b
      else Clean (a @ CHR ''/'' # b))"
  by (simp add: path_Join_def)

lemma hd_strings_Trim:
  "s \<noteq> [] \<Longrightarrow> hd s \<noteq> c \<Longrightarrow> strings_Trim s c \<noteq> [] \<and> hd (strings_Trim s c) = hd s"
proof -
  assume a: "s \<noteq> []" "hd s \<noteq> c"
  then obtain x xs where s: "s = x # xs" and x: "x \<noteq> c" by (cases s) auto
  have "trimRightByte s c = x # trimRightByte xs c"
    unfolding trimRightByte_def s using x
    by (simp add: dropWhile_append3)
  then show ?thesis using x s by (simp add: strings_Trim_def trimLeftByte_def)
qed

lemma strings_Trim_no_lead:
  "strings_Trim s c = [] \<or> hd (strings_Trim s c) \<noteq> c"
  unfolding strings_Trim_def trimLeftByte_def
  by (metis (mono_tags, lifting) hd_dropWhile)

lemma path_Join_Trim:
  assumes "a @ b = [] \<or> hd (a @ b) \<noteq> CHR ''/''"
  shows "path_Join [strings_Trim a CHR ''/'', strings_Trim b CHR ''/''] = path_Join [a, b]"
proof (cases "a = []")
  case True
  note a = this
  show ?thesis
  proof (cases "b = []")
    case True
    with a show ?thesis by (simp add: path_Join2 strings_Trim_def trimLeftByte_def trimRightByte_def)
  next
    case False
    with a assms have hb: "hd b \<noteq> CHR ''/''" by simp
    from hd_strings_Trim [OF False hb]
    have t: "strings_Trim b CHR ''/'' \<noteq> []" "hd (strings_Trim b CHR ''/'') = hd b" by simp_all
    have ta: "strings_Trim a CHR ''/'' = []"
      using a by (simp add: strings_Trim_def trimLeftByte_def trimRightByte_def)
    show ?thesis
      using a False t ta
      by (simp add: path_Join2 Clean_elems elems_strings_Trim)
  qed
next
  case False
  with assms have ha: "hd a \<noteq> CHR ''/''" by simp
  from hd_strings_Trim [OF False ha]
  have t: "strings_Trim a CHR ''/'' \<noteq> []" "hd (strings_Trim a CHR ''/'') = hd a" by simp_all
  show ?thesis
    using False t
    by (simp add: path_Join2 Clean_elems elems_append_slash elems_strings_Trim)
qed

section \<open>Plain paths are fixed by \<open>path.Clean\<close>\<close>

lemma HasPrefix_slash: "strings_HasPrefix s ''/'' = (s \<noteq> [] \<and> hd s = CHR ''/'')"
  by (cases s) (auto simp: strings_HasPrefix_def)

lemma HasSuffix_slash: "strings_HasSuffix s ''/'' = (s \<noteq> [] \<and> last s = CHR ''/'')"
  by (cases s rule: rev_cases) (auto simp: strings_HasSuffix_def)

lemma Contains_dslash: "strings_Contains s ''//'' = dslash s"
  unfolding strings_Contains_def
  by (induction s rule: dslash.induct) auto

lemma dslash_append:
  "dslash (xs @ ys) =
     (dslash xs \<or> dslash ys \<or> (xs \<noteq> [] \<and> ys \<noteq> [] \<and> last xs = CHR ''/'' \<and> hd ys = CHR ''/''))"
proof (induction xs rule: dslash.induct)
  case (1 a b cs)
  then show ?case by auto
next
  case (2 a)
  show ?case by (cases ys) auto
next
  case 3
  show ?case by simp
qed

lemma dslash_noslash: "CHR ''/'' \<notin> set t \<Longrightarrow> \<not> dslash t"
  by (induction t rule: dslash.induct) auto

lemma elems_tokens: "t \<in> set (elems s) \<Longrightarrow> t \<noteq> [] \<and> CHR ''/'' \<notin> set t"
proof (induction s rule: elems.induct)
  case 1
  then show ?case by simp
next
  case (2 c cs)
  show ?case
  proof (cases "c = CHR ''/''")
    case True
    with 2 show ?thesis by (simp add: elems_slash)
  next
    case False
    with 2(2,3) show ?thesis
      by (auto simp: elems.simps(2) [of c] dest: set_takeWhileD)
  qed
qed


lemma foldl_clean_step_plain:
  assumes "\<forall>t \<in> set ts. t \<noteq> [] \<and> t \<noteq> ''.'' \<and> t \<noteq> ''..''" "ts \<noteq> []"
  shows "foldl (clean_step False) (out, dd) ts
         = ((if out = [] then [] else out @ ''/'') @ join_slash ts, dd)"
  using assms
proof (induction ts arbitrary: out)
  case Nil
  then show ?case by simp
next
  case (Cons t ts)
  from Cons.prems have t: "t \<noteq> []" "t \<noteq> ''.''" "t \<noteq> ''..''" by auto
  have step: "clean_step False (out, dd) t = ((if out = [] then [] else out @ ''/'') @ t, dd)"
    using t by (simp add: clean_step.simps)
  show ?case
  proof (cases ts)
    case Nil
    then show ?thesis using step by simp
  next
    case (Cons u us)
    with Cons.prems Cons.IH [of "(if out = [] then [] else out @ ''/'') @ t"] t step
    show ?thesis by simp
  qed
qed

lemma clean_elems_plain:
  assumes "\<forall>t \<in> set ts. t \<noteq> [] \<and> t \<noteq> ''.'' \<and> t \<noteq> ''..''" "ts \<noteq> []"
  shows "clean_elems False ts = join_slash ts"
proof -
  from assms obtain t us where ts: "ts = t # us" by (cases ts) auto
  with assms have "t \<noteq> []" by simp
  then have "join_slash ts \<noteq> []" unfolding ts by (cases us) auto
  then show ?thesis
    by (simp add: clean_elems_def foldl_clean_step_plain [OF assms])
qed

lemma join_slash_append:
  "ts \<noteq> [] \<Longrightarrow> us \<noteq> [] \<Longrightarrow> join_slash (ts @ us) = join_slash ts @ CHR ''/'' # join_slash us"
  by (induction ts rule: join_slash.induct) (auto simp: neq_Nil_conv)

lemma dslash_Cons: "\<not> dslash (c # cs) \<Longrightarrow> \<not> dslash cs"
  by (cases cs) auto

lemma dslash_suffix: "\<not> dslash (xs @ ys) \<Longrightarrow> \<not> dslash ys"
  by (simp add: dslash_append)

lemma elems_single:
  assumes "c \<noteq> CHR ''/''" "\<forall>x\<in>set cs. x \<noteq> CHR ''/''"
  shows "elems (c # cs) = [c # cs]"
proof -
  have d: "dropWhile (\<lambda>x. x \<noteq> CHR ''/'') cs = []" using assms(2) by simp
  have t: "takeWhile (\<lambda>x. x \<noteq> CHR ''/'') cs = cs" using assms(2) by simp
  show ?thesis by (simp add: elems.simps(2) d t assms(1))
qed

lemma join_slash_elems:
  "\<not> dslash s \<Longrightarrow> s = [] \<or> last s \<noteq> CHR ''/'' \<Longrightarrow>
   join_slash (elems s) = (if s \<noteq> [] \<and> hd s = CHR ''/'' then tl s else s)"
proof (induction s rule: elems.induct)
  case 1
  show ?case by simp
next
  case (2 c cs)
  show ?case
  proof (cases "c = CHR ''/''")
    case True
    with 2(4) have cs: "cs \<noteq> []" by auto
    with 2(3) True have h: "hd cs \<noteq> CHR ''/''" by (cases cs) auto
    from 2(3) have d: "\<not> dslash cs" by (rule dslash_Cons)
    from 2(4) cs have l: "cs = [] \<or> last cs \<noteq> CHR ''/''" by simp
    from 2(1) [OF True d l] True h show ?thesis by (simp add: elems_slash)
  next
    case False
    let ?d = "dropWhile (\<lambda>x. x \<noteq> CHR ''/'') cs"
    let ?t = "takeWhile (\<lambda>x. x \<noteq> CHR ''/'') cs"
    have e: "elems (c # cs) = (c # ?t) # elems ?d"
      using False by (simp add: elems.simps(2))
    show ?thesis
    proof (cases "?d = []")
      case True
      then have all: "\<forall>x\<in>set cs. x \<noteq> CHR ''/''"
        by (simp add: dropWhile_eq_Nil_conv)
      have "elems (c # cs) = [c # cs]"
        using False all by (rule elems_single)
      with False show ?thesis by simp
    next
      case nd: False
      have h: "hd ?d = CHR ''/''" using hd_dropWhile [OF nd] by simp
      have "hd ?d # tl ?d = ?d" using nd by (rule list.collapse)
      then have "CHR ''/'' # tl ?d = ?d" by (simp only: h)
      then have "?d = CHR ''/'' # tl ?d" by (rule sym)
      then obtain r where r: "?d = CHR ''/'' # r" ..
      have "\<not> dslash ((c # ?t) @ ?d)" using 2(3) by simp
      then have dd: "\<not> dslash ?d" by (rule dslash_suffix)
      have csne: "cs \<noteq> []" using nd by auto
      have "last (?t @ ?d) = last ?d" using nd by (rule last_appendR)
      then have "last cs = last ?d" by (simp only: takeWhile_dropWhile_id)
      with csne have "last (c # cs) = last ?d" by simp
      with 2(4) have ld: "?d = [] \<or> last ?d \<noteq> CHR ''/''" by simp
      from 2(2) [OF False dd ld] r have j: "join_slash (elems ?d) = r" by simp
      from ld r have "r \<noteq> []" by auto
      with j have ne: "elems ?d \<noteq> []" by auto
      then obtain u us where u: "elems ?d = u # us" by (cases "elems ?d") auto
      have "join_slash ((c # ?t) # elems ?d) = (c # ?t) @ CHR ''/'' # join_slash (elems ?d)"
        unfolding u by simp
      also have "\<dots> = c # ?t @ ?d" using j r by simp
      also have "\<dots> = c # cs" by simp
      finally show ?thesis using e False by simp
    qed
  qed
qed

lemma last_dropWhile: "dropWhile P xs \<noteq> [] \<Longrightarrow> last (dropWhile P xs) = last xs"
proof -
  assume a: "dropWhile P xs \<noteq> []"
  then have "last (takeWhile P xs @ dropWhile P xs) = last (dropWhile P xs)"
    by (rule last_appendR)
  then show ?thesis by (simp only: takeWhile_dropWhile_id)
qed

lemma trimRightByte_no_trail: "trimRightByte s c = [] \<or> last (trimRightByte s c) \<noteq> c"
proof (cases "dropWhile (\<lambda>x. x = c) (rev s) = []")
  case True
  then show ?thesis by (simp only: trimRightByte_def rev.simps simp_thms)
next
  case False
  from hd_dropWhile [OF False] have "hd (dropWhile (\<lambda>x. x = c) (rev s)) \<noteq> c" .
  then show ?thesis using False by (simp only: trimRightByte_def last_rev simp_thms)
qed

lemma strings_Trim_no_trail: "strings_Trim s c = [] \<or> last (strings_Trim s c) \<noteq> c"
proof (cases "strings_Trim s c = []")
  case True
  then show ?thesis ..
next
  case False
  then have ne: "dropWhile (\<lambda>x. x = c) (trimRightByte s c) \<noteq> []"
    by (simp only: strings_Trim_def trimLeftByte_def simp_thms)
  then have tr: "trimRightByte s c \<noteq> []" by auto
  from last_dropWhile [OF ne] trimRightByte_no_trail [of s c] tr
  show ?thesis by (simp only: strings_Trim_def trimLeftByte_def simp_thms)
qed

lemma elems_nonempty: "s \<noteq> [] \<Longrightarrow> hd s \<noteq> CHR ''/'' \<Longrightarrow> elems s \<noteq> []"
  by (cases s) (auto simp: elems.simps(2))

lemma Clean_plain:
  assumes "s \<noteq> []" "hd s \<noteq> CHR ''/''" "list_all (\<lambda>t. t \<noteq> ''.'' \<and> t \<noteq> ''..'') (elems s)"
  shows "Clean s = join_slash (elems s)"
proof -
  have ne: "elems s \<noteq> []" using assms(1,2) by (rule elems_nonempty)
  have all: "\<forall>t \<in> set (elems s). t \<noteq> [] \<and> t \<noteq> ''.'' \<and> t \<noteq> ''..''"
    using assms(3) elems_tokens [of _ s] by (auto simp: list_all_iff)
  show ?thesis
    using assms(1,2) clean_elems_plain [OF all ne] by (simp add: Clean_elems)
qed

lemma plain_trimmed:
  assumes "plain_path (strings_Trim s CHR ''/'')"
  shows "join_slash (elems (strings_Trim s CHR ''/'')) = strings_Trim s CHR ''/''"
proof -
  let ?t = "strings_Trim s CHR ''/''"
  have d: "\<not> dslash ?t" using assms by (simp add: plain_path_def Contains_dslash)
  have l: "?t = [] \<or> last ?t \<noteq> CHR ''/''" by (rule strings_Trim_no_trail)
  have h: "?t = [] \<or> hd ?t \<noteq> CHR ''/''" by (rule strings_Trim_no_lead)
  from join_slash_elems [OF d l] h show ?thesis by auto
qed

lemma Join_path_Join:
  "Join p = path_Join [strings_Trim (Bucket p) CHR ''/'', strings_Trim (Key p) CHR ''/'']"
  by (simp add: Join_def)

lemma Join_single:
  assumes "plain_path (strings_Trim s CHR ''/'')"
  shows "path_Join [strings_Trim s CHR ''/'', []] = strings_Trim s CHR ''/''"
    and "path_Join [[], strings_Trim s CHR ''/''] = strings_Trim s CHR ''/''"
proof -
  let ?t = "strings_Trim s CHR ''/''"
  have h: "?t = [] \<or> hd ?t \<noteq> CHR ''/''" by (rule strings_Trim_no_lead)
  have all: "list_all (\<lambda>t. t \<noteq> ''.'' \<and> t \<noteq> ''..'') (elems ?t)"
    using assms by (simp add: plain_path_def)
  have c: "?t \<noteq> [] \<Longrightarrow> Clean ?t = ?t"
  proof -
    assume ne: "?t \<noteq> []"
    with h have hd: "hd ?t \<noteq> CHR ''/''" by simp
    from Clean_plain [OF ne hd all] plain_trimmed [OF assms] show ?thesis by simp
  qed
  have c2: "?t \<noteq> [] \<Longrightarrow> Clean (?t @ ''/'') = ?t"
  proof -
    assume ne: "?t \<noteq> []"
    with h have hd: "hd ?t \<noteq> CHR ''/''" by simp
    have x: "?t @ ''/'' \<noteq> []" "hd (?t @ ''/'') \<noteq> CHR ''/''" using ne hd by simp_all
    have e: "elems (?t @ ''/'') = elems ?t" using elems_append_slash [of ?t "[]"] by simp
    from Clean_plain [OF x] all e plain_trimmed [OF assms] show ?thesis by simp
  qed
  show "path_Join [?t, []] = ?t" using c2 by (simp add: path_Join2)
  show "path_Join [[], ?t] = ?t" using c by (simp add: path_Join2)
qed

lemma strings_Trim_Nil: "strings_Trim [] c = []"
  by (simp add: strings_Trim_def trimLeftByte_def trimRightByte_def)

section \<open>The shape of a cleaned path\<close>

lemma backtrack_spec:
  "dd \<le> w \<Longrightarrow>
   dd \<le> backtrack out w dd \<and> backtrack out w dd \<le> w
   \<and> (backtrack out w dd = dd \<or> out ! backtrack out w dd = CHR ''/'')"
proof (induction out w dd rule: backtrack.induct)
  case (1 out w dotdot)
  show ?case
  proof (cases "w > dotdot \<and> out ! w \<noteq> CHR ''/''")
    case True
    then have le: "dotdot \<le> w - 1" by arith
    have eq: "backtrack out w dotdot = backtrack out (w - 1) dotdot"
      by (subst backtrack.simps) (simp only: if_P [OF True])
    from 1(1) [OF True le] show ?thesis unfolding eq by auto
  next
    case False
    have eq: "backtrack out w dotdot = w"
      by (subst backtrack.simps) (simp only: if_not_P [OF False])
    from False 1(2) show ?thesis unfolding eq by auto
  qed
qed

lemma dslash_take: "\<not> dslash out \<Longrightarrow> \<not> dslash (take w out)"
proof -
  assume a: "\<not> dslash out"
  show ?thesis
  proof
    assume "dslash (take w out)"
    then have "dslash (take w out @ drop w out)" by (simp only: dslash_append simp_thms)
    then have "dslash out" by simp
    with a show False ..
  qed
qed

lemma dslash_nth:
  "\<not> dslash out \<Longrightarrow> Suc i < length out \<Longrightarrow> out ! Suc i = CHR ''/'' \<Longrightarrow> out ! i \<noteq> CHR ''/''"
proof (induction out arbitrary: i rule: dslash.induct)
  case (1 a b cs)
  show ?case
  proof (cases i)
    case 0
    with 1(2,4) show ?thesis by auto
  next
    case (Suc j)
    with 1 show ?thesis by auto
  qed
qed simp_all

lemma last_take_nth: "0 < w \<Longrightarrow> w \<le> length out \<Longrightarrow> last (take w out) = out ! (w - 1)"
  by (subst last_conv_nth) (auto simp: min_def)

lemma hd_take_pos: "0 < w \<Longrightarrow> hd (take w out) = hd out"
  by (cases out; cases w) auto


lemma clean_inv_backtrack:
  assumes inv: "clean_inv (out, dd)" and gt: "dd < length out"
  shows "clean_inv (take (backtrack out (length out - 1) dd) out, dd)"
proof -
  let ?w = "backtrack out (length out - 1) dd"
  from gt have le: "dd \<le> length out - 1" by simp
  from backtrack_spec [OF le, of out]
  have b: "dd \<le> ?w" "?w \<le> length out - 1" "?w = dd \<or> out ! ?w = CHR ''/''" by auto
  from gt have ne: "out \<noteq> []" by auto
  from inv have i: "hd out \<noteq> CHR ''/''" "\<not> dslash out" "dd = 0 \<or> out ! (dd - 1) \<noteq> CHR ''/''"
    using ne by (auto simp: clean_inv_def)
  from b(2) gt have wl: "?w < length out" by simp
  have len: "length (take ?w out) = ?w" using wl by simp
  have shape: "take ?w out = [] \<or> hd (take ?w out) \<noteq> CHR ''/'' \<and> last (take ?w out) \<noteq> CHR ''/''"
  proof (cases "?w = 0")
    case True
    then show ?thesis by simp
  next
    case False
    then have pos: "0 < ?w" by simp
    have h: "hd (take ?w out) \<noteq> CHR ''/''" using hd_take_pos [OF pos, of out] i(1) by simp
    have l: "last (take ?w out) = out ! (?w - 1)" using pos wl by (intro last_take_nth) simp_all
    have "out ! (?w - 1) \<noteq> CHR ''/''"
    proof (cases "out ! ?w = CHR ''/''")
      case True
      have "Suc (?w - 1) < length out" using pos wl by simp
      moreover have "out ! Suc (?w - 1) = CHR ''/''" using pos True by simp
      ultimately show ?thesis using i(2) by (intro dslash_nth)
    next
      case False
      with b(3) have "?w = dd" by simp
      with i(3) pos show ?thesis by simp
    qed
    with h l show ?thesis by simp
  qed
  have dd: "dd = 0 \<or> take ?w out ! (dd - 1) \<noteq> CHR ''/''"
  proof (cases "dd = 0")
    case True
    then show ?thesis ..
  next
    case False
    then have "dd - 1 < ?w" using b(1) by simp
    then have "take ?w out ! (dd - 1) = out ! (dd - 1)" by simp
    with i(3) False show ?thesis by simp
  qed
  show ?thesis
    unfolding clean_inv_def using b(1) len shape dslash_take [OF i(2), of ?w] dd
    by simp
qed

lemma clean_inv_step:
  assumes inv: "clean_inv st" and t: "t \<noteq> []" "CHR ''/'' \<notin> set t"
  shows "clean_inv (clean_step False st t)"
proof -
  obtain out dd where st: "st = (out, dd)" by (cases st)
  from inv st have i: "dd \<le> length out" "out = [] \<or> hd out \<noteq> CHR ''/'' \<and> last out \<noteq> CHR ''/''"
    "\<not> dslash out" "dd = 0 \<or> out ! (dd - 1) \<noteq> CHR ''/''"
    by (auto simp: clean_inv_def)
  show ?thesis
  proof (cases "t = ''.''")
    case True
    with inv st show ?thesis by (simp add: clean_step.simps)
  next
    case nd: False
    show ?thesis
    proof (cases "t = ''..''")
      case True
      show ?thesis
      proof (cases "dd < length out")
        case lt: True
        with True nd clean_inv_backtrack [OF inv [unfolded st] lt] show ?thesis
          unfolding st by (simp add: clean_step.simps)
      next
        case False
        with i(1) have eq: "dd = length out" by simp
        let ?o = "(if length out > 0 then out @ ''/'' else out) @ ''..''"
        have s: "clean_step False st t = (?o, length ?o)"
          unfolding st using True False by (simp add: clean_step.simps)
        have "clean_inv (?o, length ?o)"
          using i(2,3) by (auto simp: clean_inv_def dslash_append nth_append)
        with s show ?thesis by simp
      qed
    next
      case ndd: False
      let ?o = "(if length out \<noteq> 0 then out @ ''/'' else out) @ t"
      have s: "clean_step False st t = (?o, dd)"
        unfolding st using nd ndd by (simp add: clean_step.simps)
      have "hd t \<in> set t" "last t \<in> set t" using t(1) by simp_all
      with t(2) have ht: "hd t \<noteq> CHR ''/''" "last t \<noteq> CHR ''/''" by metis+
      have dt: "\<not> dslash t" using t(2) by (rule dslash_noslash)
      have n: "dd = 0 \<or> ?o ! (dd - 1) \<noteq> CHR ''/''"
      proof (cases "dd = 0")
        case True
        then show ?thesis ..
      next
        case False
        with i(1) have "dd - 1 < length out" by simp
        then have "?o ! (dd - 1) = out ! (dd - 1)" by (cases "out = []") (simp_all add: nth_append)
        with i(4) False show ?thesis by simp
      qed
      have "clean_inv (?o, dd)"
        unfolding clean_inv_def using i(1,2,3) ht dt t(1) n
        by (auto simp: dslash_append)
      with s show ?thesis by simp
    qed
  qed
qed

lemma clean_inv_foldl:
  "clean_inv st \<Longrightarrow> \<forall>t \<in> set ts. t \<noteq> [] \<and> CHR ''/'' \<notin> set t \<Longrightarrow>
   clean_inv (foldl (clean_step False) st ts)"
proof (induction ts arbitrary: st)
  case Nil
  then show ?case by simp
next
  case (Cons t ts)
  have "clean_inv (clean_step False st t)"
    using Cons.prems by (intro clean_inv_step) auto
  then have "clean_inv (foldl (clean_step False) (clean_step False st t) ts)"
    using Cons.prems by (intro Cons.IH) auto
  then show ?case by simp
qed

lemma Clean_unrooted_shape:
  assumes "s \<noteq> []" "hd s \<noteq> CHR ''/''"
  shows "hd (Clean s) \<noteq> CHR ''/'' \<and> last (Clean s) \<noteq> CHR ''/'' \<and> \<not> dslash (Clean s)"
proof -
  let ?st = "foldl (clean_step False) ([], 0) (elems s)"
  have "clean_inv ([], 0)" by (simp add: clean_inv_def)
  moreover have "\<forall>t \<in> set (elems s). t \<noteq> [] \<and> CHR ''/'' \<notin> set t"
    using elems_tokens by blast
  ultimately have inv: "clean_inv ?st" by (rule clean_inv_foldl)
  have c: "Clean s = (if fst ?st = [] then ''.'' else fst ?st)"
    using assms by (simp add: Clean_elems clean_elems_def)
  show ?thesis
  proof (cases "fst ?st = []")
    case True
    with c show ?thesis by simp
  next
    case False
    with inv c show ?thesis by (cases ?st) (auto simp: clean_inv_def)
  qed
qed

lemma Join_plain_aux:
  assumes "strings_Trim (Bucket p) CHR ''/'' \<noteq> []" and "strings_Trim (Key p) CHR ''/'' \<noteq> []"
    and "plain_path (strings_Trim (Bucket p) CHR ''/'')"
    and "plain_path (strings_Trim (Key p) CHR ''/'')"
  shows "Join p = strings_Trim (Bucket p) CHR ''/'' @ ''/'' @ strings_Trim (Key p) CHR ''/''"
proof -
  let ?b = "strings_Trim (Bucket p) CHR ''/''" and ?k = "strings_Trim (Key p) CHR ''/''"
  have hb: "hd ?b \<noteq> CHR ''/''" using strings_Trim_no_lead [of "Bucket p" "CHR ''/''"] assms(1) by simp
  have hk: "hd ?k \<noteq> CHR ''/''" using strings_Trim_no_lead [of "Key p" "CHR ''/''"] assms(2) by simp
  have eb: "elems ?b \<noteq> []" using assms(1) hb by (rule elems_nonempty)
  have ek: "elems ?k \<noteq> []" using assms(2) hk by (rule elems_nonempty)
  have x: "?b @ CHR ''/'' # ?k \<noteq> []" "hd (?b @ CHR ''/'' # ?k) \<noteq> CHR ''/''"
    using assms(1) hb by simp_all
  have all: "list_all (\<lambda>t. t \<noteq> ''.'' \<and> t \<noteq> ''..'') (elems (?b @ CHR ''/'' # ?k))"
    using assms(3,4) by (simp add: plain_path_def elems_append_slash)
  have "Join p = Clean (?b @ CHR ''/'' # ?k)"
    using assms(1) by (simp add: Join_path_Join path_Join2)
  also have "\<dots> = join_slash (elems ?b @ elems ?k)"
    using Clean_plain [OF x all] by (simp add: elems_append_slash)
  also have "\<dots> = join_slash (elems ?b) @ CHR ''/'' # join_slash (elems ?k)"
    using eb ek by (rule join_slash_append)
  also have "\<dots> = ?b @ CHR ''/'' # ?k"
    by (simp only: plain_trimmed [OF assms(3)] plain_trimmed [OF assms(4)])
  finally show ?thesis by simp
qed

section \<open>The structure of a parsed URL\<close>

lemma strings_Index_Some:
  "strings_Index s sub = Some i \<Longrightarrow> take (length sub) (drop i s) = sub"
proof (induction s arbitrary: i)
  case Nil
  then show ?case by (simp split: if_splits)
next
  case (Cons c cs)
  show ?case
  proof (cases "take (length sub) (c # cs) = sub")
    case True
    with Cons.prems show ?thesis by simp
  next
    case False
    with Cons.prems obtain j where j: "strings_Index cs sub = Some j" "i = Suc j"
      by auto
    from Cons.IH [OF j(1)] j(2) show ?thesis by simp
  qed
qed

lemma unescape_build_slash:
  "unescape_build mode (CHR ''/'' # cs) = CHR ''/'' # unescape_build mode cs"
  by (simp add: unescape_build.simps)

lemma unescape_Nil: "unescape [] mode = Inr []"
  by (simp add: unescape_def unescape_check.simps)

lemma unescape_rooted:
  assumes "unescape s mode = Inr t" "s = [] \<or> hd s = CHR ''/''"
  shows "t = [] \<and> s = [] \<or> (t \<noteq> [] \<and> hd t = CHR ''/'')"
proof (cases s)
  case Nil
  with assms(1) show ?thesis by (simp add: unescape_Nil)
next
  case (Cons c cs)
  with assms(2) have c: "c = CHR ''/''" by simp
  from assms(1) have "t = s \<or> t = unescape_build mode s"
    by (auto simp: unescape_def split: sum.splits if_splits)
  then show ?thesis unfolding Cons c by (auto simp: unescape_build_slash)
qed

lemma setPath_Inr:
  "setPath u0 p = Inr u \<Longrightarrow>
   Host u = Host u0 \<and> Scheme u = Scheme u0 \<and> unescape p encodePath = Inr (Path u)"
  by (auto simp: setPath_def split: sum.splits)

lemma setFragment_Inr:
  "setFragment u0 f = Inr u \<Longrightarrow> Host u = Host u0 \<and> Scheme u = Scheme u0 \<and> Path u = Path u0"
  by (auto simp: setFragment_def split: sum.splits)

lemma setPath_Host_Nil: "setPath u0 rest = Inr u \<Longrightarrow> Host u0 = [] \<Longrightarrow> Host u = []"
  by (drule setPath_Inr) simp

lemma setPath_Nil: "setPath u0 [] = Inr u \<Longrightarrow> Path u = []"
  by (drule setPath_Inr) (simp add: unescape_Nil)

lemma setPath_after_authority:
  assumes "setPath u0 (drop (Suc (Suc i)) t) = Inr u" "strings_Index (drop 2 t) ''/'' = Some i"
  shows "hd (Path u) = CHR ''/''"
proof -
  have d: "drop (Suc (Suc i)) t = drop i (drop 2 t)" by simp
  from strings_Index_Some [OF assms(2)] have "take 1 (drop (Suc (Suc i)) t) = ''/''"
    unfolding d by simp
  then have h: "drop (Suc (Suc i)) t \<noteq> [] \<and> hd (drop (Suc (Suc i)) t) = CHR ''/''"
    by (cases "drop (Suc (Suc i)) t") auto
  from setPath_Inr [OF assms(1)] have "unescape (drop (Suc (Suc i)) t) encodePath = Inr (Path u)"
    by simp
  from unescape_rooted [OF this] h show ?thesis by auto
qed

lemma parse_Host_Path:
  assumes "parse rawURL viaRequest = Inr u" "Host u \<noteq> []"
  shows "Path u = [] \<or> hd (Path u) = CHR ''/''"
  using assms unfolding parse_def Let_def
  apply (simp split: if_splits sum.splits prod.splits option.splits)
            apply (auto simp: new_URL_def dest: setPath_Host_Nil setPath_Nil setPath_after_authority)
  done

lemma url_Parse_Host_Path:
  assumes "url_Parse uri = Inr u" "Host u \<noteq> []"
  shows "Path u = [] \<or> hd (Path u) = CHR ''/''"
proof -
  from assms(1) obtain u0 raw where p: "parse raw False = Inr u0"
    and u: "u = u0 \<or> (\<exists>f. setFragment u0 f = Inr u)"
    by (auto simp: url_Parse_def split: prod.splits sum.splits if_splits)
  from u have "Host u = Host u0 \<and> Path u = Path u0"
    by (auto dest: setFragment_Inr)
  with parse_Host_Path [OF p] assms(2) show ?thesis by simp
qed

lemma url_Parse_s3: "url_Parse ''s3://'' = Inr (new_URL\<lparr>Scheme := ''s3''\<rparr>)"
  by code_simp

lemma escape_id:
  "list_all (\<lambda>c. \<not> shouldEscape c mode) s \<Longrightarrow> escape s mode = s"
  by (simp add: escape_def Let_def list_all_iff)

lemma ToURI_nonempty:
  assumes "Join p \<noteq> []"
  shows "ToURI p = Some (''s3://'' @ (if Join p = ''*'' then ''*'' else escape (Join p) encodePath))"
  using assms
  by (simp add: ToURI_def url_Parse_s3 URL_String_def new_URL_def EscapedPath_def Let_def)

section \<open>Escaping and unescaping a URL path\<close>

lemma shouldEscape_encodePath:
  "shouldEscape c encodePath =
     (\<not> (inRange CHR ''a'' CHR ''z'' c \<or> inRange CHR ''A'' CHR ''Z'' c \<or> inRange CHR ''0'' CHR ''9'' c
         \<or> c \<in> set ''-_.~$&+,/:;=@''))"
  by (auto simp: shouldEscape_def)

lemma shouldEscape_encodeHost:
  "shouldEscape c encodeHost =
     (\<not> (inRange CHR ''a'' CHR ''z'' c \<or> inRange CHR ''A'' CHR ''Z'' c \<or> inRange CHR ''0'' CHR ''9'' c
         \<or> c \<in> set ''!$&()*+,;=:[]<>-_.~'' \<or> c = CHR 0x27 \<or> c = CHR 0x22))"
  by (auto simp: shouldEscape_def)

lemma bucket_byte_plain:
  assumes "bucket_byte c"
  shows "\<not> shouldEscape c encodePath" "\<not> shouldEscape c encodeHost"
    "c \<noteq> CHR ''/''" "c \<noteq> CHR ''@''" "c \<noteq> CHR '':''" "c \<noteq> CHR ''[''" "c \<noteq> CHR ''%''"
    "c \<noteq> CHR ''*''"
proof -
  show "\<not> shouldEscape c encodePath" using assms
    unfolding shouldEscape_encodePath bucket_byte_def by auto
  show "\<not> shouldEscape c encodeHost" using assms
    unfolding shouldEscape_encodeHost bucket_byte_def by auto
  show "c \<noteq> CHR ''/''" using assms by (auto simp: bucket_byte_def inRange_def)
  show "c \<noteq> CHR ''@''" using assms by (auto simp: bucket_byte_def inRange_def)
  show "c \<noteq> CHR '':''" using assms by (auto simp: bucket_byte_def inRange_def)
  show "c \<noteq> CHR ''[''" using assms by (auto simp: bucket_byte_def inRange_def)
  show "c \<noteq> CHR ''%''" using assms by (auto simp: bucket_byte_def inRange_def)
  show "c \<noteq> CHR ''*''" using assms by (auto simp: bucket_byte_def inRange_def)
qed

lemma inRange_not_below: "inRange lo hi c \<Longrightarrow> x < lo \<Longrightarrow> \<not> c \<le> x"
  by (auto simp: inRange_def)

lemma inRange_not_above: "inRange lo hi c \<Longrightarrow> hi < x \<Longrightarrow> \<not> x \<le> c"
  by (auto simp: inRange_def)

lemma unescaped_byte:
  assumes "\<not> shouldEscape c encodePath"
  shows "c \<noteq> CHR ''%''" "c \<noteq> CHR ''#''" "c \<noteq> CHR ''?''" "\<not> (c < CHR '' '' \<or> c = CHR 0x7F)"
proof -
  have "shouldEscape CHR ''%'' encodePath" "shouldEscape CHR ''#'' encodePath"
    "shouldEscape CHR ''?'' encodePath" "shouldEscape (CHR 0x7F) encodePath"
    by code_simp+
  with assms have d: "c \<noteq> CHR ''%''" "c \<noteq> CHR ''#''" "c \<noteq> CHR ''?''" "c \<noteq> CHR 0x7F"
    by auto
  then show "c \<noteq> CHR ''%''" "c \<noteq> CHR ''#''" "c \<noteq> CHR ''?''" by simp_all
  from assms have
    "inRange CHR ''a'' CHR ''z'' c \<or> inRange CHR ''A'' CHR ''Z'' c \<or> inRange CHR ''0'' CHR ''9'' c
         \<or> c \<in> set ''-_.~$&+,/:;=@''"
    unfolding shouldEscape_encodePath by simp
  then have "\<not> c < CHR '' ''"
  proof (elim disjE)
    assume "inRange CHR ''a'' CHR ''z'' c"
    from inRange_not_below [OF this, of "CHR '' ''"] show ?thesis by simp
  next
    assume "inRange CHR ''A'' CHR ''Z'' c"
    from inRange_not_below [OF this, of "CHR '' ''"] show ?thesis by simp
  next
    assume "inRange CHR ''0'' CHR ''9'' c"
    from inRange_not_below [OF this, of "CHR '' ''"] show ?thesis by simp
  next
    assume "c \<in> set ''-_.~$&+,/:;=@''"
    then show ?thesis by auto
  qed
  with d(4) show "\<not> (c < CHR '' '' \<or> c = CHR 0x7F)" by simp
qed

lemma hexdigits_all:
  "\<forall>k \<in> set [0..<16]. ishex (upperhex ! k) \<and> unhex (upperhex ! k) = k
      \<and> \<not> shouldEscape (upperhex ! k) encodePath"
  by code_simp

lemma hexdigit:
  assumes "k < 16"
  shows "ishex (upperhex ! k)" "unhex (upperhex ! k) = k" "\<not> shouldEscape (upperhex ! k) encodePath"
  using hexdigits_all assms by auto

lemma of_char_hi: "(of_char c :: nat) div 16 < 16"
proof -
  have "(of_char c :: nat) < 256" by simp
  then show ?thesis by arith
qed

lemma pct_decode:
  "char_of (unhex (upperhex ! ((of_char c :: nat) div 16)) * 16
            + unhex (upperhex ! ((of_char c :: nat) mod 16))) = c"
proof -
  have "unhex (upperhex ! ((of_char c :: nat) div 16)) = of_char c div 16"
    by (rule hexdigit(2)) (rule of_char_hi)
  moreover have "unhex (upperhex ! ((of_char c :: nat) mod 16)) = of_char c mod 16"
    by (rule hexdigit(2)) simp
  ultimately show ?thesis by simp
qed

lemma concat_map_unchanged:
  "\<forall>c \<in> set s. \<not> P c \<Longrightarrow> concat (map (\<lambda>c. if P c then f c else [c]) s) = s"
  by (induction s) auto

lemma escape_encodePath: "escape s encodePath = concat (map escape_byte s)"
proof (cases "filter (\<lambda>c. shouldEscape c encodePath) s = []")
  case True
  then have n: "\<forall>c \<in> set s. \<not> shouldEscape c encodePath"
    by (simp add: filter_empty_conv)
  then have "concat (map escape_byte s) = s"
    unfolding escape_byte_def by (rule concat_map_unchanged)
  moreover have "escape s encodePath = s"
    using True by (simp add: escape_def)
  ultimately show ?thesis by simp
next
  case False
  have e: "escape_byte = (\<lambda>c. if shouldEscape c encodePath
             then [CHR ''%'', upperhex ! ((of_char c :: nat) div 16), upperhex ! ((of_char c :: nat) mod 16)]
             else [c])"
    by (rule ext) (simp add: escape_byte_def pct_def)
  from False show ?thesis
    unfolding e by (simp add: escape_def)
qed

lemma escape_append: "escape (a @ b) encodePath = escape a encodePath @ escape b encodePath"
  by (simp add: escape_encodePath)

lemma escape_slash: "escape (CHR ''/'' # s) encodePath = CHR ''/'' # escape s encodePath"
proof -
  have "\<not> shouldEscape CHR ''/'' encodePath" by code_simp
  then show ?thesis by (simp add: escape_encodePath escape_byte_def)
qed

lemma escape_bytes:
  assumes "x \<in> set (escape s encodePath)"
  shows "x = CHR ''%'' \<or> \<not> shouldEscape x encodePath"
proof -
  from assms obtain c where c: "c \<in> set s" "x \<in> set (escape_byte c)"
    by (auto simp: escape_encodePath)
  show ?thesis
  proof (cases "shouldEscape c encodePath")
    case True
    with c(2) have "x = CHR ''%'' \<or> x = upperhex ! ((of_char c :: nat) div 16)
        \<or> x = upperhex ! ((of_char c :: nat) mod 16)"
      by (auto simp: escape_byte_def pct_def)
    moreover have "\<not> shouldEscape (upperhex ! ((of_char c :: nat) div 16)) encodePath"
      by (rule hexdigit(3)) (rule of_char_hi)
    moreover have "\<not> shouldEscape (upperhex ! ((of_char c :: nat) mod 16)) encodePath"
      by (rule hexdigit(3)) simp
    ultimately show ?thesis by auto
  next
    case False
    with c(2) show ?thesis by (simp add: escape_byte_def)
  qed
qed

lemma unescape_check_escape:
  "unescape_check encodePath (concat (map escape_byte s)) n False
     = Inr (n + length (filter (\<lambda>c. shouldEscape c encodePath) s), False)"
proof (induction s arbitrary: n)
  case Nil
  show ?case by (simp add: unescape_check.simps)
next
  case (Cons c s)
  show ?case
  proof (cases "shouldEscape c encodePath")
    case True
    have h: "ishex (upperhex ! ((of_char c :: nat) div 16))" "ishex (upperhex ! ((of_char c :: nat) mod 16))"
      by (rule hexdigit(1), rule of_char_hi) (rule hexdigit(1), simp)
    show ?thesis
      using True h Cons [of "n + 1"]
      by (simp add: escape_byte_def pct_def unescape_check.simps(2))
  next
    case False
    from unescaped_byte(1) [OF False] have "c \<noteq> CHR ''%''" .
    then show ?thesis
      using False Cons [of n]
      by (simp add: escape_byte_def unescape_check.simps(2))
  qed
qed

lemma unescape_build_escape:
  "unescape_build encodePath (concat (map escape_byte s)) = s"
proof (induction s)
  case Nil
  show ?case by (simp add: unescape_build.simps)
next
  case (Cons c s)
  show ?case
  proof (cases "shouldEscape c encodePath")
    case True
    then show ?thesis
      using Cons pct_decode [of c]
      by (simp add: escape_byte_def pct_def unescape_build.simps(2))
  next
    case False
    from unescaped_byte(1) [OF False] have "c \<noteq> CHR ''%''" .
    then show ?thesis
      using False Cons
      by (simp add: escape_byte_def unescape_build.simps(2))
  qed
qed

lemma unescape_escape: "unescape (escape s encodePath) encodePath = Inr s"
proof (cases "filter (\<lambda>c. shouldEscape c encodePath) s = []")
  case True
  then have "\<forall>c \<in> set s. \<not> shouldEscape c encodePath"
    by (simp add: filter_empty_conv)
  then have "concat (map escape_byte s) = s"
    unfolding escape_byte_def by (rule concat_map_unchanged)
  with True show ?thesis
    using unescape_check_escape [of s 0]
    by (simp add: unescape_def escape_encodePath)
next
  case False
  then show ?thesis
    using unescape_check_escape [of s 0] unescape_build_escape [of s]
    by (simp add: unescape_def escape_encodePath)
qed

section \<open>Parsing the URI of a plain bucket and key\<close>

lemma strings_Index_None: "c \<notin> set s \<Longrightarrow> strings_Index s [c] = None"
  by (induction s) auto

lemma strings_LastIndex_None: "c \<notin> set s \<Longrightarrow> strings_LastIndex s [c] = None"
  by (induction s) auto

lemma strings_Index_first: "c \<notin> set a \<Longrightarrow> strings_Index (a @ c # b) [c] = Some (length a)"
  by (induction a) auto

lemma strings_Cut_None: "c \<notin> set s \<Longrightarrow> strings_Cut s [c] = (s, [], False)"
  by (simp add: strings_Cut_def strings_Index_None)

lemma strings_CountByte_0: "c \<notin> set s \<Longrightarrow> strings_CountByte s c = 0"
  by (auto simp: strings_CountByte_def filter_empty_conv)

lemma unescape_check_host:
  "list_all bucket_byte b \<Longrightarrow> unescape_check encodeHost b n False = Inr (n, False)"
proof (induction b)
  case Nil
  show ?case by (simp add: unescape_check.simps)
next
  case (Cons c b)
  then have c: "bucket_byte c" and b: "list_all bucket_byte b" by simp_all
  from bucket_byte_plain [OF c] Cons.IH [OF b] show ?case
    by (simp add: unescape_check.simps(2))
qed

lemma unescape_host: "list_all bucket_byte b \<Longrightarrow> unescape b encodeHost = Inr b"
  by (simp add: unescape_def unescape_check_host)

lemma notin_by_pred: "list_all P b \<Longrightarrow> \<not> P x \<Longrightarrow> x \<notin> set b"
  by (auto simp: list_all_iff)

lemma bucket_byte_excluded:
  "\<not> bucket_byte CHR ''/''" "\<not> bucket_byte CHR ''@''" "\<not> bucket_byte CHR '':''"
  "\<not> bucket_byte CHR ''[''" "\<not> bucket_byte CHR ''%''" "\<not> bucket_byte CHR ''*''"
  "\<not> bucket_byte CHR ''#''" "\<not> bucket_byte CHR ''?''"
  by code_simp+

lemma bucket_bytes_notin:
  assumes "list_all bucket_byte b"
  shows "CHR ''/'' \<notin> set b" "CHR ''@'' \<notin> set b" "CHR '':'' \<notin> set b" "CHR ''['' \<notin> set b"
    "CHR ''%'' \<notin> set b" "CHR ''*'' \<notin> set b" "CHR ''#'' \<notin> set b" "CHR ''?'' \<notin> set b"
    "\<forall>x \<in> set b. \<not> (x < CHR '' '' \<or> x = CHR 0x7F)"
proof -
  note n = notin_by_pred [OF assms]
  show "CHR ''/'' \<notin> set b" by (rule n) (rule bucket_byte_excluded)
  show "CHR ''@'' \<notin> set b" by (rule n) (rule bucket_byte_excluded)
  show "CHR '':'' \<notin> set b" by (rule n) (rule bucket_byte_excluded)
  show "CHR ''['' \<notin> set b" by (rule n) (rule bucket_byte_excluded)
  show "CHR ''%'' \<notin> set b" by (rule n) (rule bucket_byte_excluded)
  show "CHR ''*'' \<notin> set b" by (rule n) (rule bucket_byte_excluded)
  show "CHR ''#'' \<notin> set b" by (rule n) (rule bucket_byte_excluded)
  show "CHR ''?'' \<notin> set b" by (rule n) (rule bucket_byte_excluded)
  show "\<forall>x \<in> set b. \<not> (x < CHR '' '' \<or> x = CHR 0x7F)"
  proof
    fix x assume "x \<in> set b"
    with assms have "bucket_byte x" by (simp add: list_all_iff)
    then have "\<not> shouldEscape x encodePath" by (rule bucket_byte_plain(1))
    then show "\<not> (x < CHR '' '' \<or> x = CHR 0x7F)" by (rule unescaped_byte(4))
  qed
qed

lemma parseHost_plain: "list_all bucket_byte b \<Longrightarrow> parseHost b = Inr b"
proof -
  assume a: "list_all bucket_byte b"
  have p: "\<not> strings_HasPrefix b ''[''"
    using bucket_bytes_notin(4) [OF a] by (cases b) (auto simp: strings_HasPrefix_def)
  have l: "strings_LastIndex b '':'' = None"
    using bucket_bytes_notin(3) [OF a] by (rule strings_LastIndex_None)
  show ?thesis by (simp add: parseHost_def p l unescape_host [OF a])
qed

lemma parseAuthority_plain: "list_all bucket_byte b \<Longrightarrow> parseAuthority b = Inr (None, b)"
proof -
  assume a: "list_all bucket_byte b"
  have l: "strings_LastIndex b ''@'' = None"
    using bucket_bytes_notin(2) [OF a] by (rule strings_LastIndex_None)
  show ?thesis by (simp add: parseAuthority_def l parseHost_plain [OF a])
qed

lemma getScheme_s3: "getScheme (''s3:'' @ x) = Inr (''s3'', x)"
  by (simp add: getScheme_def inRange_def)

lemma ToLower_s3: "strings_ToLower ''s3'' = ''s3''"
  by code_simp

lemma parse_s3:
  assumes b: "list_all bucket_byte b"
    and E: "\<forall>x \<in> set E. x \<noteq> CHR ''?'' \<and> \<not> (x < CHR '' '' \<or> x = CHR 0x7F)"
    and r: "E = [] \<or> hd E = CHR ''/''"
  shows "parse (''s3://'' @ b @ E) False = setPath (new_URL\<lparr>Scheme := ''s3'', Host := b\<rparr>) E"
proof -
  define rest where "rest = ''//'' @ b @ E"
  define uri where "uri = ''s3://'' @ b @ E"
  have ctl: "stringContainsCTLByte uri = False"
    using bucket_bytes_notin(9) [OF b] E
    by (auto simp: uri_def stringContainsCTLByte_def list_ex_iff)
  have star: "(uri = ''*'') = False" by (simp add: uri_def)
  have g: "getScheme uri = Inr (''s3'', rest)"
    using getScheme_s3 [of rest] by (simp add: uri_def rest_def)
  have q: "CHR ''?'' \<notin> set rest"
    using bucket_bytes_notin(8) [OF b] E by (auto simp: rest_def)
  have cnt: "strings_CountByte rest CHR ''?'' = 0"
    using q by (rule strings_CountByte_0)
  have cut: "strings_Cut rest ''?'' = (rest, [], False)"
    using q by (rule strings_Cut_None)
  have pre: "strings_HasPrefix rest ''/'' = True" "strings_HasPrefix rest ''//'' = True"
    by (simp_all add: strings_HasPrefix_def rest_def)
  have "parse uri False = setPath (new_URL\<lparr>Scheme := ''s3'', Host := b\<rparr>) E"
  proof (cases E)
    case Nil
    have d: "drop 2 rest = b" by (simp add: rest_def Nil)
    have idx: "strings_Index b ''/'' = None"
      using bucket_bytes_notin(1) [OF b] by (rule strings_Index_None)
    show ?thesis
      unfolding parse_def
      by (simp add: ctl star g ToLower_s3 cnt cut pre d idx parseAuthority_plain [OF b] Let_def
            new_URL_def Nil)
  next
    case (Cons e es)
    with r have E': "E = CHR ''/'' # es" by simp
    have d: "drop 2 rest = b @ CHR ''/'' # es" by (simp add: rest_def E')
    have idx: "strings_Index (b @ CHR ''/'' # es) ''/'' = Some (length b)"
      using bucket_bytes_notin(1) [OF b] by (rule strings_Index_first)
    show ?thesis
      unfolding parse_def
      by (simp add: ctl star g ToLower_s3 cnt cut pre d idx parseAuthority_plain [OF b] Let_def
            new_URL_def E')
  qed
  then show ?thesis by (simp only: uri_def)
qed

lemma url_Parse_no_fragment:
  "CHR ''#'' \<notin> set uri \<Longrightarrow>
   url_Parse uri = (case parse uri False of Inl err \<Rightarrow> Inl (url_Error ''parse'' uri err) | Inr u \<Rightarrow> Inr u)"
  by (simp add: url_Parse_def strings_Cut_None split: sum.splits)

lemma url_Parse_s3_bucket:
  assumes b: "list_all bucket_byte b"
  shows "url_Parse (''s3://'' @ b) = Inr (new_URL\<lparr>Scheme := ''s3'', Host := b\<rparr>)"
proof -
  have h: "CHR ''#'' \<notin> set (''s3://'' @ b)"
    using bucket_bytes_notin(7) [OF b] by simp
  have p: "parse (''s3://'' @ b) False = setPath (new_URL\<lparr>Scheme := ''s3'', Host := b\<rparr>) []"
    using parse_s3 [OF b, of "[]"] by simp
  have e: "escape [] encodePath = []" by (simp add: escape_def)
  show ?thesis
    unfolding url_Parse_no_fragment [OF h] p
    by (simp add: setPath_def unescape_Nil e new_URL_def)
qed

lemma url_Parse_s3_bucket_key:
  assumes b: "list_all bucket_byte b"
  shows "url_Parse (''s3://'' @ b @ escape (CHR ''/'' # k) encodePath)
         = Inr (new_URL\<lparr>Scheme := ''s3'', Host := b, Path := CHR ''/'' # k\<rparr>)"
proof -
  let ?E = "escape (CHR ''/'' # k) encodePath"
  have Eb: "\<forall>x \<in> set ?E. x \<noteq> CHR ''#'' \<and> x \<noteq> CHR ''?'' \<and> \<not> (x < CHR '' '' \<or> x = CHR 0x7F)"
  proof
    fix x assume "x \<in> set ?E"
    from escape_bytes [OF this] show "x \<noteq> CHR ''#'' \<and> x \<noteq> CHR ''?'' \<and> \<not> (x < CHR '' '' \<or> x = CHR 0x7F)"
    proof
      assume "x = CHR ''%''"
      then show ?thesis by simp
    next
      assume "\<not> shouldEscape x encodePath"
      from unescaped_byte [OF this] show ?thesis by simp
    qed
  qed
  have hd: "?E = [] \<or> hd ?E = CHR ''/''" by (simp add: escape_slash)
  have h: "CHR ''#'' \<notin> set (''s3://'' @ b @ ?E)"
    using bucket_bytes_notin(7) [OF b] Eb by auto
  have p: "parse (''s3://'' @ b @ ?E) False = setPath (new_URL\<lparr>Scheme := ''s3'', Host := b\<rparr>) ?E"
    using Eb by (intro parse_s3 [OF b] hd) simp
  show ?thesis
    unfolding url_Parse_no_fragment [OF h] p
    by (simp add: setPath_def unescape_escape new_URL_def)
qed

lemma strings_Trim_id:
  assumes "s = [] \<or> (hd s \<noteq> c \<and> last s \<noteq> c)"
  shows "strings_Trim s c = s"
proof (cases s)
  case Nil
  then show ?thesis by (simp add: strings_Trim_Nil)
next
  case (Cons x xs)
  with assms have h: "x \<noteq> c" and l: "last s \<noteq> c" by simp_all
  have ne: "s \<noteq> []" using Cons by simp
  have "rev (butlast s @ [last s]) = last s # rev (butlast s)" by simp
  then have r: "rev s = last s # rev (butlast s)"
    by (simp only: append_butlast_last_id [OF ne])
  have "dropWhile (\<lambda>x. x = c) (rev s) = rev s"
    unfolding r using l by simp
  then have "trimRightByte s c = s"
    by (simp add: trimRightByte_def)
  then show ?thesis using h Cons by (simp add: strings_Trim_def trimLeftByte_def)
qed

lemma bucket_facts:
  assumes ne: "b \<noteq> []" and bb: "list_all bucket_byte b" and nd: "b \<noteq> ''.''" "b \<noteq> ''..''"
  shows "strings_Trim b CHR ''/'' = b" "plain_path b" "b \<noteq> ''*''" "escape b encodePath = b"
proof -
  note ns = bucket_bytes_notin(1) [OF bb]
  from ne have "hd b \<in> set b" "last b \<in> set b" by simp_all
  with ns have "hd b \<noteq> CHR ''/''" "last b \<noteq> CHR ''/''" by auto
  then show "strings_Trim b CHR ''/'' = b" by (intro strings_Trim_id) simp
  from ne obtain c cs where b: "b = c # cs" by (cases b) auto
  with ns have "c \<noteq> CHR ''/''" "\<forall>x \<in> set cs. x \<noteq> CHR ''/''" by auto
  then have "elems (c # cs) = [c # cs]" by (rule elems_single)
  then have e: "elems b = [b]" by (simp only: b)
  have "\<not> dslash b" using ns by (rule dslash_noslash)
  then show "plain_path b" using nd by (simp add: plain_path_def Contains_dslash e)
  show "b \<noteq> ''*''" using bucket_bytes_notin(6) [OF bb] by auto
  have "list_all (\<lambda>c. \<not> shouldEscape c encodePath) b"
    using bb bucket_byte_plain(1) by (auto simp: list_all_iff)
  then show "escape b encodePath = b" by (rule escape_id)
qed

lemma FromURI_ToURI_aux:
  assumes ne: "Bucket p \<noteq> []" and bb: "list_all bucket_byte (Bucket p)"
    and nd: "Bucket p \<noteq> ''.''" "Bucket p \<noteq> ''..''"
    and tk: "strings_Trim (Key p) CHR ''/'' = Key p" and pk: "plain_path (Key p)"
  shows "map_option FromURI (ToURI p) = Some (p, None)"
proof -
  let ?b = "Bucket p" and ?k = "Key p"
  note bf = bucket_facts [OF ne bb nd]
  have p: "p = \<lparr>Bucket = ?b, Key = ?k\<rparr>" by simp
  show ?thesis
  proof (cases "?k = []")
    case True
    have "Join p = path_Join [strings_Trim ?b CHR ''/'', []]"
      using True by (simp add: Join_path_Join strings_Trim_Nil)
    also have "\<dots> = strings_Trim ?b CHR ''/''"
    proof (rule Join_single(1))
      show "plain_path (strings_Trim ?b CHR ''/'')" unfolding bf(1) by (rule bf(2))
    qed
    finally have j: "Join p = ?b" unfolding bf(1) .
    have t: "ToURI p = Some (''s3://'' @ ?b)"
      using ToURI_nonempty [of p] ne bf(3,4) by (simp add: j)
    have f: "FromURI (''s3://'' @ ?b) = (\<lparr>Bucket = ?b, Key = []\<rparr>, None)"
      unfolding FromURI_def url_Parse_s3_bucket [OF bb] using ne by (simp add: new_URL_def)
    show ?thesis unfolding t using f True p by (simp del: append.simps)
  next
    case False
    have tk': "strings_Trim ?k CHR ''/'' \<noteq> []" using False tk by simp
    have tb': "strings_Trim ?b CHR ''/'' \<noteq> []" using ne bf(1) by simp
    have a3: "plain_path (strings_Trim ?b CHR ''/'')" unfolding bf(1) by (rule bf(2))
    have a4: "plain_path (strings_Trim ?k CHR ''/'')" unfolding tk by (rule pk)
    have "Join p = strings_Trim ?b CHR ''/'' @ ''/'' @ strings_Trim ?k CHR ''/''"
      using tb' tk' a3 a4 by (rule Join_plain_aux)
    then have j: "Join p = ?b @ CHR ''/'' # ?k" unfolding bf(1) tk by simp
    have "length (Join p) \<ge> 2" using ne unfolding j by (cases ?b) simp_all
    then have js: "Join p \<noteq> ''*''" "Join p \<noteq> []" by auto
    have e: "escape (Join p) encodePath = ?b @ escape (CHR ''/'' # ?k) encodePath"
      unfolding j escape_append bf(4) ..
    have t: "ToURI p = Some (''s3://'' @ ?b @ escape (CHR ''/'' # ?k) encodePath)"
      using ToURI_nonempty [OF js(2)] js(1) by (simp add: e)
    have f: "FromURI (''s3://'' @ ?b @ escape (CHR ''/'' # ?k) encodePath)
             = (\<lparr>Bucket = ?b, Key = ?k\<rparr>, None)"
      unfolding FromURI_def url_Parse_s3_bucket_key [OF bb] using ne False
      by (simp add: new_URL_def)
    show ?thesis unfolding t using f p by (simp del: append.simps)
  qed
qed

section \<open>Rooted paths, \<open>Append\<close> and the totality of \<open>ToURI\<close>\<close>

lemma Join_shape_aux:
  "\<not> strings_HasPrefix (Join p) ''/'' \<and> \<not> strings_HasSuffix (Join p) ''/''
   \<and> \<not> strings_Contains (Join p) ''//''"
proof -
  let ?b = "strings_Trim (Bucket p) CHR ''/''" and ?k = "strings_Trim (Key p) CHR ''/''"
  have hb: "?b = [] \<or> hd ?b \<noteq> CHR ''/''" by (rule strings_Trim_no_lead)
  have hk: "?k = [] \<or> hd ?k \<noteq> CHR ''/''" by (rule strings_Trim_no_lead)
  have "Join p = [] \<or> (hd (Join p) \<noteq> CHR ''/'' \<and> last (Join p) \<noteq> CHR ''/'' \<and> \<not> dslash (Join p))"
  proof (cases "?b = []")
    case True
    note b = this
    show ?thesis
    proof (cases "?k = []")
      case True
      with b show ?thesis by (simp add: Join_path_Join path_Join2)
    next
      case False
      with hk have "hd ?k \<noteq> CHR ''/''" by simp
      from Clean_unrooted_shape [OF False this] b False show ?thesis
        by (simp add: Join_path_Join path_Join2)
    qed
  next
    case False
    with hb have "hd (?b @ CHR ''/'' # ?k) \<noteq> CHR ''/''" by simp
    moreover have "?b @ CHR ''/'' # ?k \<noteq> []" by simp
    ultimately have "hd (Clean (?b @ CHR ''/'' # ?k)) \<noteq> CHR ''/''
       \<and> last (Clean (?b @ CHR ''/'' # ?k)) \<noteq> CHR ''/'' \<and> \<not> dslash (Clean (?b @ CHR ''/'' # ?k))"
      by (intro Clean_unrooted_shape)
    with False show ?thesis by (simp add: Join_path_Join path_Join2)
  qed
  then show ?thesis
    by (auto simp: HasPrefix_slash HasSuffix_slash Contains_dslash)
qed

lemma clean_step_rooted:
  assumes "fst st \<noteq> []" "hd (fst st) = CHR ''/''" "snd st = 1"
  shows "fst (clean_step True st t) \<noteq> [] \<and> hd (fst (clean_step True st t)) = CHR ''/''
         \<and> snd (clean_step True st t) = 1"
proof -
  obtain out dd where st: "st = (out, dd)" by (cases st)
  with assms have o: "out \<noteq> []" "hd out = CHR ''/''" and dd: "dd = 1" by simp_all
  show ?thesis
  proof (cases "t = ''..'' \<and> dd < length out")
    case True
    let ?w = "backtrack out (length out - 1) dd"
    from True have "dd \<le> length out - 1" by arith
    from backtrack_spec [OF this, of out] dd have w: "0 < ?w" by simp
    have s: "clean_step True st t = (take ?w out, dd)"
      unfolding st using True by (simp add: clean_step.simps)
    have "take ?w out \<noteq> []" using w o(1) by simp
    moreover have "hd (take ?w out) = CHR ''/''" using hd_take_pos [OF w, of out] o(2) by simp
    ultimately show ?thesis unfolding s using dd by simp
  next
    case False
    then show ?thesis
      unfolding st using o dd by (auto simp: clean_step.simps)
  qed
qed

lemma foldl_clean_step_rooted:
  "fst st \<noteq> [] \<Longrightarrow> hd (fst st) = CHR ''/'' \<Longrightarrow> snd st = 1 \<Longrightarrow>
   fst (foldl (clean_step True) st ts) \<noteq> [] \<and> hd (fst (foldl (clean_step True) st ts)) = CHR ''/''"
proof (induction ts arbitrary: st)
  case Nil
  then show ?case by simp
next
  case (Cons t ts)
  from clean_step_rooted [OF Cons.prems, of t]
  have "fst (clean_step True st t) \<noteq> []" "hd (fst (clean_step True st t)) = CHR ''/''"
    "snd (clean_step True st t) = 1" by simp_all
  from Cons.IH [OF this] show ?case by simp
qed

lemma Clean_rooted:
  assumes "x \<noteq> []" "hd x = CHR ''/''"
  shows "Clean x \<noteq> [] \<and> hd (Clean x) = CHR ''/''"
proof -
  let ?out = "fst (foldl (clean_step True) (''/'', 1) (elems x))"
  have "?out \<noteq> [] \<and> hd ?out = CHR ''/''"
    by (rule foldl_clean_step_rooted) simp_all
  moreover have "Clean x = (if ?out = [] then ''.'' else ?out)"
    using assms by (simp add: Clean_elems clean_elems_def)
  ultimately show ?thesis by simp
qed

lemma path_Join_rooted:
  assumes "strings_HasPrefix (a @ b) ''/''"
  shows "strings_HasPrefix (path_Join [a, b]) ''/''"
proof -
  from assms have ne: "a @ b \<noteq> []" and h: "hd (a @ b) = CHR ''/''"
    by (simp_all add: HasPrefix_slash)
  show ?thesis
  proof (cases "a = []")
    case True
    with ne h have "b \<noteq> []" "hd b = CHR ''/''" by simp_all
    from Clean_rooted [OF this] True \<open>b \<noteq> []\<close> show ?thesis
      by (simp add: path_Join2 HasPrefix_slash)
  next
    case False
    with h have "hd (a @ CHR ''/'' # b) = CHR ''/''" by simp
    moreover have "a @ CHR ''/'' # b \<noteq> []" by simp
    ultimately have "Clean (a @ CHR ''/'' # b) \<noteq> [] \<and> hd (Clean (a @ CHR ''/'' # b)) = CHR ''/''"
      by (intro Clean_rooted)
    with False show ?thesis by (simp add: path_Join2 HasPrefix_slash)
  qed
qed

lemma Append_Join_aux:
  "Bucket (Append p suffix) = Bucket p
   \<and> Key (Append p suffix) = path_Join [Key p, suffix]
   \<and> (Key (Append p suffix) = Join \<lparr>Bucket = Key p, Key = suffix\<rparr>)
       = (\<not> strings_HasPrefix (Key p @ suffix) ''/'')
   \<and> strings_HasPrefix (Key (Append p suffix)) ''/'' = strings_HasPrefix (Key p @ suffix) ''/''"
proof -
  have k: "Key (Append p suffix) = path_Join [Key p, suffix]" by (simp add: Append_def)
  have j: "Join \<lparr>Bucket = Key p, Key = suffix\<rparr>
           = path_Join [strings_Trim (Key p) CHR ''/'', strings_Trim suffix CHR ''/'']"
    by (simp add: Join_path_Join)
  have nj: "\<not> strings_HasPrefix (Join \<lparr>Bucket = Key p, Key = suffix\<rparr>) ''/''"
    using Join_shape_aux [of "\<lparr>Bucket = Key p, Key = suffix\<rparr>"] by simp
  show ?thesis
  proof (cases "strings_HasPrefix (Key p @ suffix) ''/''")
    case True
    from path_Join_rooted [OF True] have r: "strings_HasPrefix (Key (Append p suffix)) ''/''"
      by (simp only: k)
    with nj have "Key (Append p suffix) \<noteq> Join \<lparr>Bucket = Key p, Key = suffix\<rparr>" by auto
    with True r k show ?thesis by (simp add: Append_def)
  next
    case False
    then have "Key p @ suffix = [] \<or> hd (Key p @ suffix) \<noteq> CHR ''/''"
      by (simp only: HasPrefix_slash) blast
    from path_Join_Trim [OF this] have e: "Key (Append p suffix) = Join \<lparr>Bucket = Key p, Key = suffix\<rparr>"
      by (simp only: k j)
    with nj have "\<not> strings_HasPrefix (Key (Append p suffix)) ''/''" by simp
    with False e k show ?thesis by (simp add: Append_def)
  qed
qed

lemma ToURI_total: "ToURI p = Some (URL_String (new_URL\<lparr>Scheme := ''s3'', Path := Join p\<rparr>))"
  by (simp add: ToURI_def url_Parse_s3)

lemma ToURI_aux:
  "ToURI p \<noteq> None
   \<and> (Join p \<noteq> [] \<longrightarrow>
      ToURI p = Some (''s3://'' @ (if Join p = ''*'' then ''*'' else escape (Join p) encodePath)))
   \<and> (Join p \<noteq> [] \<and> list_all (\<lambda>c. \<not> shouldEscape c encodePath) (Join p)
        \<longrightarrow> ToURI p = Some (''s3://'' @ Join p))
   \<and> (Key p = [] \<and> strings_Trim (Bucket p) CHR ''/'' \<noteq> []
        \<and> plain_path (strings_Trim (Bucket p) CHR ''/'')
        \<and> list_all (\<lambda>c. \<not> shouldEscape c encodePath) (strings_Trim (Bucket p) CHR ''/'')
        \<longrightarrow> ToURI p = Some (''s3://'' @ strings_Trim (Bucket p) CHR ''/''))
   \<and> ToURI \<lparr>Bucket = ''test_bucket'', Key = []\<rparr> = Some ''s3://test_bucket''"
proof (intro conjI impI)
  show "ToURI p \<noteq> None" by (simp add: ToURI_total)
next
  assume "Join p \<noteq> []"
  then show "ToURI p = Some (''s3://'' @ (if Join p = ''*'' then ''*'' else escape (Join p) encodePath))"
    by (rule ToURI_nonempty)
next
  assume a: "Join p \<noteq> [] \<and> list_all (\<lambda>c. \<not> shouldEscape c encodePath) (Join p)"
  then have "escape (Join p) encodePath = Join p" by (intro escape_id) simp
  with a ToURI_nonempty [of p] show "ToURI p = Some (''s3://'' @ Join p)" by simp
next
  let ?b = "strings_Trim (Bucket p) CHR ''/''"
  assume a: "Key p = [] \<and> ?b \<noteq> [] \<and> plain_path ?b
        \<and> list_all (\<lambda>c. \<not> shouldEscape c encodePath) ?b"
  then have "Join p = path_Join [?b, []]"
    by (simp add: Join_path_Join strings_Trim_Nil)
  also have "\<dots> = ?b" using a by (intro Join_single(1)) simp
  finally have j: "Join p = ?b" .
  from a have e: "escape ?b encodePath = ?b" by (intro escape_id) simp
  have "shouldEscape CHR ''*'' encodePath" by code_simp
  with a have "?b \<noteq> ''*''" by auto
  with ToURI_nonempty [of p] a e show "ToURI p = Some (''s3://'' @ ?b)" by (simp add: j)
next
  show "ToURI \<lparr>Bucket = ''test_bucket'', Key = []\<rparr> = Some ''s3://test_bucket''" by code_simp
qed

section \<open>Properties of \<open>Join\<close> and \<open>Append\<close>\<close>

text \<open>
  Claim C2 as stated fails: \<open>Join\<close> does not always return the two trimmed strings
  with a separator between them.  With an empty key no separator is written, and
  \<open>path.Join\<close> cleans the result, so an empty element or a \<open>..\<close> inside a field is
  resolved.
\<close>

theorem Join_not_concat_counterexample:
  "Join \<lparr>Bucket = ''a'', Key = []\<rparr> = ''a''
   \<and> strings_Trim ''a'' CHR ''/'' @ ''/'' @ strings_Trim [] CHR ''/'' = ''a/''
   \<and> Join \<lparr>Bucket = ''a//b'', Key = ''c/../d''\<rparr> = ''a/b/d''
   \<and> strings_Trim ''a//b'' CHR ''/'' @ ''/'' @ strings_Trim ''c/../d'' CHR ''/'' = ''a//b/c/../d''"
  by code_simp

text \<open>
  Claim C2, amended.  For every path whose bucket and key, trimmed of leading and
  trailing separators, are both non-empty and plain (no empty element, no element
  \<open>.\<close> or \<open>..\<close>), \<open>Join\<close> returns the trimmed bucket, one separator, and the trimmed
  key.  \<open>Join\<close> is a total function: it has no error result.
\<close>

theorem Join_plain:
  assumes "strings_Trim (Bucket p) CHR ''/'' \<noteq> []" and "strings_Trim (Key p) CHR ''/'' \<noteq> []"
    and "plain_path (strings_Trim (Bucket p) CHR ''/'')"
    and "plain_path (strings_Trim (Key p) CHR ''/'')"
  shows "Join p = strings_Trim (Bucket p) CHR ''/'' @ ''/'' @ strings_Trim (Key p) CHR ''/''"
  using assms by (rule Join_plain_aux)

theorem Join_plain_witness:
  "Join \<lparr>Bucket = ''/test_bucket/'', Key = ''//test_dir/test_key/''\<rparr>
     = ''test_bucket/test_dir/test_key''"
proof -
  let ?p = "\<lparr>Bucket = ''/test_bucket/'', Key = ''//test_dir/test_key/''\<rparr>"
  have 1: "strings_Trim (Bucket ?p) CHR ''/'' \<noteq> []" by code_simp
  have 2: "strings_Trim (Key ?p) CHR ''/'' \<noteq> []" by code_simp
  have 3: "plain_path (strings_Trim (Bucket ?p) CHR ''/'')" by code_simp
  have 4: "plain_path (strings_Trim (Key ?p) CHR ''/'')" by code_simp
  have 5: "strings_Trim (Bucket ?p) CHR ''/'' @ ''/'' @ strings_Trim (Key ?p) CHR ''/''
             = ''test_bucket/test_dir/test_key''" by code_simp
  from Join_plain [OF 1 2 3 4] 5 show ?thesis by simp
qed

text \<open>
  Claim C10 as stated fails: with an empty key \<open>Join\<close> returns the trimmed bucket
  cleaned by \<open>path.Clean\<close>, which differs from the trimmed bucket when that has an
  empty, \<open>.\<close> or \<open>..\<close> element.
\<close>

theorem Join_empty_key_counterexample:
  "Join \<lparr>Bucket = ''a//b'', Key = []\<rparr> = ''a/b''
   \<and> strings_Trim ''a//b'' CHR ''/'' = ''a//b''"
  by code_simp

text \<open>
  Claim C10, amended.  For every path whose key is empty and whose trimmed bucket is
  plain, \<open>Join\<close> returns just the trimmed bucket, with no separator after it; for
  every path whose bucket is empty and whose trimmed key is plain, \<open>Join\<close> returns
  just the trimmed key, with no separator before it; when both fields are empty
  \<open>Join\<close> returns the empty string.
\<close>

theorem Join_degenerate:
  "(Key p = [] \<and> plain_path (strings_Trim (Bucket p) CHR ''/'')
      \<longrightarrow> Join p = strings_Trim (Bucket p) CHR ''/'')
   \<and> (Bucket p = [] \<and> plain_path (strings_Trim (Key p) CHR ''/'')
      \<longrightarrow> Join p = strings_Trim (Key p) CHR ''/'')
   \<and> (Bucket p = [] \<and> Key p = [] \<longrightarrow> Join p = [])"
proof (intro conjI impI)
  assume a: "Key p = [] \<and> plain_path (strings_Trim (Bucket p) CHR ''/'')"
  then have "Join p = path_Join [strings_Trim (Bucket p) CHR ''/'', []]"
    by (simp add: Join_path_Join strings_Trim_Nil)
  also have "\<dots> = strings_Trim (Bucket p) CHR ''/''"
    using a by (intro Join_single(1)) simp
  finally show "Join p = strings_Trim (Bucket p) CHR ''/''" .
next
  assume a: "Bucket p = [] \<and> plain_path (strings_Trim (Key p) CHR ''/'')"
  then have "Join p = path_Join [[], strings_Trim (Key p) CHR ''/'']"
    by (simp add: Join_path_Join strings_Trim_Nil)
  also have "\<dots> = strings_Trim (Key p) CHR ''/''"
    using a by (intro Join_single(2)) simp
  finally show "Join p = strings_Trim (Key p) CHR ''/''" .
next
  assume "Bucket p = [] \<and> Key p = []"
  then show "Join p = []"
    by (simp add: Join_path_Join strings_Trim_Nil path_Join2)
qed

theorem Join_degenerate_witness:
  "Join \<lparr>Bucket = ''/test_bucket/'', Key = []\<rparr> = ''test_bucket''
   \<and> Join \<lparr>Bucket = [], Key = ''/dir/test_key/''\<rparr> = ''dir/test_key''
   \<and> Join \<lparr>Bucket = [], Key = []\<rparr> = []"
proof -
  let ?p = "\<lparr>Bucket = ''/test_bucket/'', Key = []\<rparr>"
  let ?q = "\<lparr>Bucket = [], Key = ''/dir/test_key/''\<rparr>"
  let ?r = "\<lparr>Bucket = [], Key = []\<rparr>"
  have p: "Key ?p = [] \<and> plain_path (strings_Trim (Bucket ?p) CHR ''/'')" by code_simp
  have q: "Bucket ?q = [] \<and> plain_path (strings_Trim (Key ?q) CHR ''/'')" by code_simp
  have r: "Bucket ?r = [] \<and> Key ?r = []" by simp
  have tp: "strings_Trim (Bucket ?p) CHR ''/'' = ''test_bucket''" by code_simp
  have tq: "strings_Trim (Key ?q) CHR ''/'' = ''dir/test_key''" by code_simp
  from Join_degenerate [of ?p] p have "Join ?p = strings_Trim (Bucket ?p) CHR ''/''" by blast
  moreover from Join_degenerate [of ?q] q have "Join ?q = strings_Trim (Key ?q) CHR ''/''" by blast
  moreover from Join_degenerate [of ?r] r have "Join ?r = []" by blast
  ultimately show ?thesis using tp tq by simp
qed

text \<open>
  Claim C8.  For every path, the string \<open>Join\<close> returns does not begin with the
  separator, does not end with it, and has no two separators in a row, however many
  separators the bucket and the key hold.
\<close>

theorem Join_no_stray_separators:
  "\<not> strings_HasPrefix (Join p) ''/'' \<and> \<not> strings_HasSuffix (Join p) ''/''
   \<and> \<not> strings_Contains (Join p) ''//''"
  by (rule Join_shape_aux)

theorem Join_no_stray_separators_witness:
  "Join \<lparr>Bucket = ''//a///b/'', Key = ''/../c//''\<rparr> = ''a/c''
   \<and> \<not> strings_HasPrefix (Join \<lparr>Bucket = ''//a///b/'', Key = ''/../c//''\<rparr>) ''/''
   \<and> \<not> strings_HasSuffix (Join \<lparr>Bucket = ''//a///b/'', Key = ''/../c//''\<rparr>) ''/''
   \<and> \<not> strings_Contains (Join \<lparr>Bucket = ''//a///b/'', Key = ''/../c//''\<rparr>) ''//''"
proof -
  have "Join \<lparr>Bucket = ''//a///b/'', Key = ''/../c//''\<rparr> = ''a/c''" by code_simp
  with Join_no_stray_separators [of "\<lparr>Bucket = ''//a///b/'', Key = ''/../c//''\<rparr>"]
  show ?thesis by blast
qed

text \<open>
  Claim C6 as stated fails: \<open>Append\<close> hands the key and the suffix to \<open>path.Join\<close>
  untrimmed, so a separator at the start of the key stays, where \<open>Join\<close> would have
  trimmed it.
\<close>

theorem Append_keeps_leading_separator_counterexample:
  "Append \<lparr>Bucket = ''b'', Key = ''/a''\<rparr> ''c'' = \<lparr>Bucket = ''b'', Key = ''/a/c''\<rparr>
   \<and> Join \<lparr>Bucket = ''/a'', Key = ''c''\<rparr> = ''a/c''
   \<and> path_Join [strings_Trim ''/a'' CHR ''/'', strings_Trim ''c'' CHR ''/''] = ''a/c''"
  by code_simp

text \<open>
  Claim C6, amended.  For every path \<open>p\<close> and every suffix, \<open>Append\<close> returns a path
  with the bucket of \<open>p\<close>, unchanged, and with the key \<open>path.Join(p.Key, suffix)\<close>.
  That key is the one \<open>Join\<close> makes of the key of \<open>p\<close> and the suffix (each trimmed
  of leading and trailing separators, joined with one separator, cleaned) exactly
  when the key of \<open>p\<close> followed by the suffix does not begin with a separator; when
  it does, the separator is not trimmed: the new key begins with a separator too.
\<close>

theorem Append_Join:
  "Bucket (Append p suffix) = Bucket p
   \<and> Key (Append p suffix) = path_Join [Key p, suffix]
   \<and> (Key (Append p suffix) = Join \<lparr>Bucket = Key p, Key = suffix\<rparr>)
       = (\<not> strings_HasPrefix (Key p @ suffix) ''/'')
   \<and> strings_HasPrefix (Key (Append p suffix)) ''/'' = strings_HasPrefix (Key p @ suffix) ''/''"
  by (rule Append_Join_aux)

theorem Append_Join_witness:
  "Append \<lparr>Bucket = ''/b/'', Key = ''a//''\<rparr> ''/c/'' = \<lparr>Bucket = ''/b/'', Key = ''a/c''\<rparr>
   \<and> Bucket (Append \<lparr>Bucket = ''/b/'', Key = ''/a//''\<rparr> ''/c/'') = ''/b/''
   \<and> strings_HasPrefix (Key (Append \<lparr>Bucket = ''/b/'', Key = ''/a//''\<rparr> ''/c/'')) ''/''
   \<and> Key (Append \<lparr>Bucket = ''/b/'', Key = ''/a//''\<rparr> ''/c/'')
       \<noteq> Join \<lparr>Bucket = ''/a//'', Key = ''/c/''\<rparr>"
proof -
  let ?p = "\<lparr>Bucket = ''/b/'', Key = ''a//''\<rparr>"
  let ?q = "\<lparr>Bucket = ''/b/'', Key = ''/a//''\<rparr>"
  have h: "\<not> strings_HasPrefix (Key ?p @ ''/c/'') ''/''" by code_simp
  have g: "strings_HasPrefix (Key ?q @ ''/c/'') ''/''" by code_simp
  have j: "Join \<lparr>Bucket = Key ?p, Key = ''/c/''\<rparr> = ''a/c''" by code_simp
  from Append_Join [of ?p "''/c/''"] h
  have "Key (Append ?p ''/c/'') = Join \<lparr>Bucket = Key ?p, Key = ''/c/''\<rparr>"
    and "Bucket (Append ?p ''/c/'') = Bucket ?p" by blast+
  then have 1: "Append ?p ''/c/'' = \<lparr>Bucket = ''/b/'', Key = ''a/c''\<rparr>" using j by simp
  from Append_Join [of ?q "''/c/''"] g
  have 2: "Bucket (Append ?q ''/c/'') = Bucket ?q"
    "strings_HasPrefix (Key (Append ?q ''/c/'')) ''/''"
    "Key (Append ?q ''/c/'') \<noteq> Join \<lparr>Bucket = Key ?q, Key = ''/c/''\<rparr>" by blast+
  from 1 2 show ?thesis by simp
qed

section \<open>Properties of \<open>FromURI\<close>\<close>

text \<open>
  Claim C9.  Whenever \<open>FromURI\<close> returns a non-nil error, whether it is the error of
  \<open>url.Parse\<close> or the \<open>ParseError\<close> for a bad scheme or host, the path returned with
  it is the zero path, with empty bucket and empty key.
\<close>

theorem FromURI_error_zero_Path:
  "snd (FromURI uri) \<noteq> None \<Longrightarrow> fst (FromURI uri) = \<lparr>Bucket = [], Key = []\<rparr>"
  by (auto simp add: FromURI_def Let_def split: sum.splits if_splits)

theorem FromURI_error_zero_Path_witness:
  "snd (FromURI ''s3:/test_bucket/test_key'') \<noteq> None
   \<and> fst (FromURI ''s3:/test_bucket/test_key'') = \<lparr>Bucket = [], Key = []\<rparr>"
proof -
  have h: "snd (FromURI ''s3:/test_bucket/test_key'') \<noteq> None"
    by code_simp
  from FromURI_error_zero_Path [OF h] h show ?thesis by simp
qed

text \<open>
  Claim C7.  \<open>FromURI("https://test_bucket/test_key")\<close> fails with the \<open>ParseError\<close>
  that carries the whole input, and \<open>FromURI("s3:/test_bucket/test_key")\<close> fails with
  the \<open>ParseError\<close> as well: with one slash after the scheme the URL parses with
  scheme \<open>s3\<close> and an empty host.
\<close>

theorem FromURI_rejects_examples:
  "FromURI ''https://test_bucket/test_key''
     = (\<lparr>Bucket = [], Key = []\<rparr>, Some (ParseError ''https://test_bucket/test_key''))
   \<and> FromURI ''s3:/test_bucket/test_key''
     = (\<lparr>Bucket = [], Key = []\<rparr>, Some (ParseError ''s3:/test_bucket/test_key''))
   \<and> map_sum id Scheme (url_Parse ''s3:/test_bucket/test_key'') = Inr ''s3''
   \<and> map_sum id Host (url_Parse ''s3:/test_bucket/test_key'') = Inr []"
  by code_simp

theorem FromURI_rejects_examples_witness:
  "snd (FromURI ''https://test_bucket/test_key'')
     = Some (ParseError ''https://test_bucket/test_key'')
   \<and> snd (FromURI ''s3:/test_bucket/test_key'') = Some (ParseError ''s3:/test_bucket/test_key'')"
  using FromURI_rejects_examples by simp

text \<open>
  Claim C3 as stated fails: \<open>FromURI\<close> has a second failure mode.  When \<open>url.Parse\<close>
  itself rejects the input, \<open>FromURI\<close> hands back the error of \<open>url.Parse\<close>, not a
  \<open>ParseError\<close>, although the scheme is \<open>s3\<close> and a host is written.
\<close>

theorem FromURI_not_total_counterexample:
  "FromURI ''s3://b/%zz''
     = (\<lparr>Bucket = [], Key = []\<rparr>, Some (url_Error ''parse'' ''s3://b/%zz'' (EscapeError ''%zz'')))
   \<and> snd (FromURI ''s3://b/%zz'') \<noteq> Some (ParseError ''s3://b/%zz'')"
  by code_simp

text \<open>
  Claim C3, amended.  \<open>FromURI\<close> returns an error exactly when \<open>url.Parse\<close> rejects the
  input, or accepts it with a scheme other than \<open>s3\<close> or with an empty host.  In the
  first case the error is the one of \<open>url.Parse\<close>; in the second it is the
  \<open>ParseError\<close> carrying the input.  Every input that \<open>url.Parse\<close> accepts with
  scheme \<open>s3\<close> and a non-empty host yields a path and no error.
\<close>

theorem FromURI_error_cases:
  "(snd (FromURI uri) \<noteq> None) =
     (case url_Parse uri of Inl err \<Rightarrow> True | Inr u \<Rightarrow> Scheme u \<noteq> ''s3'' \<or> Host u = [])
   \<and> (\<forall>err. url_Parse uri = Inl err \<longrightarrow> FromURI uri = (\<lparr>Bucket = [], Key = []\<rparr>, Some err))
   \<and> (\<forall>u. url_Parse uri = Inr u \<and> (Scheme u \<noteq> ''s3'' \<or> Host u = [])
          \<longrightarrow> FromURI uri = (\<lparr>Bucket = [], Key = []\<rparr>, Some (ParseError uri)))
   \<and> (\<forall>u. url_Parse uri = Inr u \<and> Scheme u = ''s3'' \<and> Host u \<noteq> []
          \<longrightarrow> FromURI uri = (\<lparr>Bucket = Host u, Key = drop 1 (Path u)\<rparr>, None))"
  by (auto simp: FromURI_def Let_def split: sum.splits)

theorem FromURI_error_cases_witness:
  "snd (FromURI ''s3://b/%zz'') = Some (url_Error ''parse'' ''s3://b/%zz'' (EscapeError ''%zz''))
   \<and> snd (FromURI ''test_bucket/test_key'') = Some (ParseError ''test_bucket/test_key'')
   \<and> FromURI ''s3://test_bucket/test_key'' = (\<lparr>Bucket = ''test_bucket'', Key = ''test_key''\<rparr>, None)"
proof -
  have 1: "url_Parse ''s3://b/%zz'' = Inl (url_Error ''parse'' ''s3://b/%zz'' (EscapeError ''%zz''))"
    by code_simp
  have 2: "url_Parse ''test_bucket/test_key'' = Inr (new_URL\<lparr>Path := ''test_bucket/test_key''\<rparr>)"
    by code_simp
  have 3: "url_Parse ''s3://test_bucket/test_key''
            = Inr (new_URL\<lparr>Scheme := ''s3'', Host := ''test_bucket'', Path := ''/test_key''\<rparr>)"
    by code_simp
  from FromURI_error_cases [of "''s3://b/%zz''"] 1
  have a: "FromURI ''s3://b/%zz''
      = (\<lparr>Bucket = [], Key = []\<rparr>, Some (url_Error ''parse'' ''s3://b/%zz'' (EscapeError ''%zz'')))"
    by blast
  from FromURI_error_cases [of "''test_bucket/test_key''"] 2
  have b: "FromURI ''test_bucket/test_key''
      = (\<lparr>Bucket = [], Key = []\<rparr>, Some (ParseError ''test_bucket/test_key''))"
    by (simp add: new_URL_def)
  from FromURI_error_cases [of "''s3://test_bucket/test_key''"] 3
  have c: "FromURI ''s3://test_bucket/test_key''
      = (\<lparr>Bucket = ''test_bucket'', Key = ''test_key''\<rparr>, None)"
    by (simp add: new_URL_def)
  from a b c show ?thesis by simp
qed

text \<open>
  Claim C4.  Whenever \<open>FromURI\<close> succeeds, the bucket of the path is the host of the
  parsed URL and the key is the path of the URL without its leading separator; the
  key is empty both when the URL has no path and when its path is the separator
  alone, so that \<open>s3://test_bucket\<close> and \<open>s3://test_bucket/\<close> parse alike.
\<close>

theorem FromURI_success:
  "(\<forall>p. FromURI uri = (p, None) \<longrightarrow>
      (\<exists>u. url_Parse uri = Inr u \<and> Bucket p = Host u
           \<and> (Path u = [] \<and> Key p = [] \<or> Path u = CHR ''/'' # Key p)))
   \<and> FromURI ''s3://test_bucket'' = (\<lparr>Bucket = ''test_bucket'', Key = []\<rparr>, None)
   \<and> FromURI ''s3://test_bucket/'' = (\<lparr>Bucket = ''test_bucket'', Key = []\<rparr>, None)"
proof (intro conjI allI impI)
  fix p
  assume a: "FromURI uri = (p, None)"
  then obtain u where u: "url_Parse uri = Inr u" and h: "Host u \<noteq> []"
    and p: "p = \<lparr>Bucket = Host u, Key = (if length (Path u) \<le> 1 then [] else drop 1 (Path u))\<rparr>"
    by (auto simp: FromURI_def Let_def split: sum.splits if_splits)
  from url_Parse_Host_Path [OF u h] have "Path u = [] \<or> hd (Path u) = CHR ''/''" .
  then have "Path u = [] \<and> Key p = [] \<or> Path u = CHR ''/'' # Key p"
    unfolding p by (cases "Path u") (auto simp: drop_Suc)
  with u p show "\<exists>u. url_Parse uri = Inr u \<and> Bucket p = Host u
           \<and> (Path u = [] \<and> Key p = [] \<or> Path u = CHR ''/'' # Key p)"
    by auto
next
  show "FromURI ''s3://test_bucket'' = (\<lparr>Bucket = ''test_bucket'', Key = []\<rparr>, None)" by code_simp
  show "FromURI ''s3://test_bucket/'' = (\<lparr>Bucket = ''test_bucket'', Key = []\<rparr>, None)" by code_simp
qed

theorem FromURI_success_witness:
  "map_sum id Host (url_Parse ''s3://test_bucket/test_dir/test_key'') = Inr ''test_bucket''
   \<and> map_sum id Path (url_Parse ''s3://test_bucket/test_dir/test_key'') = Inr ''/test_dir/test_key''
   \<and> FromURI ''s3://test_bucket/test_dir/test_key''
       = (\<lparr>Bucket = ''test_bucket'', Key = ''test_dir/test_key''\<rparr>, None)"
proof -
  let ?uri = "''s3://test_bucket/test_dir/test_key''"
  let ?p = "\<lparr>Bucket = ''test_bucket'', Key = ''test_dir/test_key''\<rparr>"
  have e: "FromURI ?uri = (?p, None)" by code_simp
  from FromURI_success [of ?uri] e
  obtain u where "url_Parse ?uri = Inr u" "Bucket ?p = Host u"
    "Path u = [] \<and> Key ?p = [] \<or> Path u = CHR ''/'' # Key ?p"
    by blast
  with e show ?thesis by auto
qed

section \<open>Properties of \<open>ToURI\<close>\<close>

text \<open>
  Claim C5 as stated fails: \<open>ToURI\<close> writes the joined path through \<open>URL.String\<close>,
  which percent-escapes every byte that may not stand in a URL path, so the result
  is not always the scheme followed by the joined path itself.
\<close>

theorem ToURI_escapes_counterexample:
  "ToURI \<lparr>Bucket = ''a b'', Key = ''k''\<rparr> = Some ''s3://a%20b/k''
   \<and> ''s3://'' @ Join \<lparr>Bucket = ''a b'', Key = ''k''\<rparr> = ''s3://a b/k''"
  by code_simp

text \<open>
  Claim C5, amended.  \<open>ToURI\<close> has no error result: it returns a string for every
  path.  For every path whose joined form \<open>Join(p)\<close> is not empty, that string is
  \<open>s3://\<close> followed by \<open>Join(p)\<close> percent-escaped as a URL path (a lone \<open>*\<close> is left
  as it is); when no byte of \<open>Join(p)\<close> needs escaping it is \<open>s3://\<close> followed by
  \<open>Join(p)\<close> itself.  For an empty key and a trimmed bucket that is non-empty, plain
  and free of bytes that need escaping, it is the scheme and the trimmed bucket
  only, as in \<open>ToURI({"test_bucket", ""}) = "s3://test_bucket"\<close>.
\<close>

theorem ToURI_scheme_Join:
  "ToURI p \<noteq> None
   \<and> (Join p \<noteq> [] \<longrightarrow>
      ToURI p = Some (''s3://'' @ (if Join p = ''*'' then ''*'' else escape (Join p) encodePath)))
   \<and> (Join p \<noteq> [] \<and> list_all (\<lambda>c. \<not> shouldEscape c encodePath) (Join p)
        \<longrightarrow> ToURI p = Some (''s3://'' @ Join p))
   \<and> (Key p = [] \<and> strings_Trim (Bucket p) CHR ''/'' \<noteq> []
        \<and> plain_path (strings_Trim (Bucket p) CHR ''/'')
        \<and> list_all (\<lambda>c. \<not> shouldEscape c encodePath) (strings_Trim (Bucket p) CHR ''/'')
        \<longrightarrow> ToURI p = Some (''s3://'' @ strings_Trim (Bucket p) CHR ''/''))
   \<and> ToURI \<lparr>Bucket = ''test_bucket'', Key = []\<rparr> = Some ''s3://test_bucket''"
  by (rule ToURI_aux)

theorem ToURI_scheme_Join_witness:
  "ToURI \<lparr>Bucket = ''/test_bucket/'', Key = ''/dir/test key/''\<rparr> = Some ''s3://test_bucket/dir/test%20key''
   \<and> ToURI \<lparr>Bucket = ''/test_bucket/'', Key = ''/test_key/''\<rparr> = Some ''s3://test_bucket/test_key''
   \<and> ToURI \<lparr>Bucket = ''//test_bucket/'', Key = []\<rparr> = Some ''s3://test_bucket''
   \<and> ToURI \<lparr>Bucket = [], Key = []\<rparr> \<noteq> None"
proof -
  let ?p = "\<lparr>Bucket = ''/test_bucket/'', Key = ''/dir/test key/''\<rparr>"
  let ?q = "\<lparr>Bucket = ''/test_bucket/'', Key = ''/test_key/''\<rparr>"
  let ?r = "\<lparr>Bucket = ''//test_bucket/'', Key = []\<rparr>"
  have jp: "Join ?p = ''test_bucket/dir/test key''" by code_simp
  have ep: "escape ''test_bucket/dir/test key'' encodePath = ''test_bucket/dir/test%20key''" by code_simp
  have jq: "Join ?q = ''test_bucket/test_key''" by code_simp
  have sq: "list_all (\<lambda>c. \<not> shouldEscape c encodePath) (Join ?q)" unfolding jq by code_simp
  have np: "Join ?p \<noteq> []" unfolding jp by simp
  have nq: "Join ?q \<noteq> []" unfolding jq by simp
  have tr: "strings_Trim (Bucket ?r) CHR ''/'' = ''test_bucket''" by code_simp
  have r: "Key ?r = [] \<and> strings_Trim (Bucket ?r) CHR ''/'' \<noteq> []
        \<and> plain_path (strings_Trim (Bucket ?r) CHR ''/'')
        \<and> list_all (\<lambda>c. \<not> shouldEscape c encodePath) (strings_Trim (Bucket ?r) CHR ''/'')"
    by code_simp
  from ToURI_scheme_Join [of ?p] np
  have "ToURI ?p = Some (''s3://'' @ (if Join ?p = ''*'' then ''*'' else escape (Join ?p) encodePath))"
    by blast
  then have 1: "ToURI ?p = Some ''s3://test_bucket/dir/test%20key''"
    unfolding jp ep by simp
  from ToURI_scheme_Join [of ?q] nq sq have "ToURI ?q = Some (''s3://'' @ Join ?q)"
    by blast
  then have 2: "ToURI ?q = Some ''s3://test_bucket/test_key''"
    unfolding jq by simp
  from ToURI_scheme_Join [of ?r] r
  have "ToURI ?r = Some (''s3://'' @ strings_Trim (Bucket ?r) CHR ''/'')" by blast
  then have 3: "ToURI ?r = Some ''s3://test_bucket''" unfolding tr by simp
  from ToURI_scheme_Join [of "\<lparr>Bucket = [], Key = []\<rparr>"]
  have 4: "ToURI \<lparr>Bucket = [], Key = []\<rparr> \<noteq> None" by blast
  from 1 2 3 4 show ?thesis by simp
qed

section \<open>The round trip through \<open>ToURI\<close> and \<open>FromURI\<close>\<close>

text \<open>
  Claim C1 as stated fails: \<open>ToURI\<close> trims and cleans the fields, so a path with a
  separator at an end of a field does not come back as it was.
\<close>

theorem FromURI_ToURI_counterexample:
  "map_option FromURI (ToURI \<lparr>Bucket = ''b'', Key = ''/k''\<rparr>)
     = Some (\<lparr>Bucket = ''b'', Key = ''k''\<rparr>, None)
   \<and> \<lparr>Bucket = ''b'', Key = ''k''\<rparr> \<noteq> \<lparr>Bucket = ''b'', Key = ''/k''\<rparr>"
  by code_simp

text \<open>
  Claim C1, amended.  For every path whose bucket is non-empty, is neither \<open>.\<close> nor
  \<open>..\<close>, and is made of letters, digits and the bytes \<open>-_.~$&+,;=\<close> only, and whose key
  has no separator at either end and is plain (no empty element, no element \<open>.\<close> or
  \<open>..\<close>; any bytes otherwise), \<open>FromURI(ToURI(p))\<close> succeeds and returns \<open>p\<close>
  itself; in particular an empty key comes back empty.
\<close>

theorem FromURI_ToURI:
  assumes "Bucket p \<noteq> []" and "list_all bucket_byte (Bucket p)"
    and "Bucket p \<noteq> ''.''" and "Bucket p \<noteq> ''..''"
    and "strings_Trim (Key p) CHR ''/'' = Key p" and "plain_path (Key p)"
  shows "map_option FromURI (ToURI p) = Some (p, None)"
  using assms by (rule FromURI_ToURI_aux)

theorem FromURI_ToURI_witness:
  "map_option FromURI (ToURI \<lparr>Bucket = ''test_bucket'', Key = ''test dir/100%/key?#''\<rparr>)
     = Some (\<lparr>Bucket = ''test_bucket'', Key = ''test dir/100%/key?#''\<rparr>, None)
   \<and> map_option FromURI (ToURI \<lparr>Bucket = ''test_bucket'', Key = []\<rparr>)
     = Some (\<lparr>Bucket = ''test_bucket'', Key = []\<rparr>, None)"
proof -
  let ?p = "\<lparr>Bucket = ''test_bucket'', Key = ''test dir/100%/key?#''\<rparr>"
  let ?q = "\<lparr>Bucket = ''test_bucket'', Key = []\<rparr>"
  have 1: "Bucket ?p \<noteq> []" "Bucket ?q \<noteq> []" by simp_all
  have 2: "list_all bucket_byte (Bucket ?p)" "list_all bucket_byte (Bucket ?q)" by code_simp+
  have 3: "Bucket ?p \<noteq> ''.''" "Bucket ?q \<noteq> ''.''" by simp_all
  have 4: "Bucket ?p \<noteq> ''..''" "Bucket ?q \<noteq> ''..''" by simp_all
  have 5: "strings_Trim (Key ?p) CHR ''/'' = Key ?p" "strings_Trim (Key ?q) CHR ''/'' = Key ?q"
    by code_simp+
  have 6: "plain_path (Key ?p)" "plain_path (Key ?q)" by code_simp+
  from FromURI_ToURI [OF 1(1) 2(1) 3(1) 4(1) 5(1) 6(1)]
       FromURI_ToURI [OF 1(2) 2(2) 3(2) 4(2) 5(2) 6(2)]
  show ?thesis by simp
qed

end
